theory Spec2Isabelle
  imports Main "HOL-Library.AList"
begin

section \<open>The sliding puzzle of qt-sliding-puzzle.py\<close>

text \<open>
  The development embeds the game logic of the classes \<^verbatim>\<open>Tile\<close> and \<^verbatim>\<open>Gameboard\<close>.
  Tile widgets are Python objects that the board reaches through several references
  (the dictionary \<^verbatim>\<open>self.tiles\<close>, the layout \<^verbatim>\<open>self.gamegrid\<close>, the argument of
  \<^verbatim>\<open>move_tile\<close>), so the objects live in an explicit store and are named by references.
  Dictionaries are association lists in insertion order, as Python keeps them.
  Exceptions are values of a sum type. The draws of \<^verbatim>\<open>randint\<close> come from a function
  \<open>rnd\<close> that is read at increasing indices.

  Painting is left out: the pixmaps, the alpha value and the fade timers of a tile,
  \<^verbatim>\<open>image_fraction\<close>, \<^verbatim>\<open>window_height\<close>, \<^verbatim>\<open>file_path\<close> and the deletion of tile widgets
  by \<^verbatim>\<open>deleteLater\<close>. The fade branches of \<^verbatim>\<open>move_tile\<close> change the alpha value of the tile
  and wait for its timers in a loop around \<^verbatim>\<open>app.processEvents()\<close>. Every handler is taken to
  run to completion before the next event is handled: a click that Qt would deliver inside
  such a loop, in the middle of \<^verbatim>\<open>move_tile\<close>, is not part of this model.
\<close>

subsection \<open>Data\<close>

type_synonym pos = "int \<times> int"

type_synonym ref = nat

text \<open>The fields \<^verbatim>\<open>_location\<close> and \<^verbatim>\<open>_id\<close> of a \<^verbatim>\<open>Tile\<close>.\<close>

record Tile =
  location :: pos
  tile_id :: pos

datatype error = KeyError | AttributeError | ZeroDivisionError | ValueError
  | TypeError | RuntimeError | IndexError | InvalidImage

text \<open>What sits in a cell of the \<^verbatim>\<open>QGridLayout\<close>: a tile widget or the label that shows
  the whole image.\<close>

datatype widget = TileW ref | LabelW

text \<open>A \<^verbatim>\<open>QLabel\<close> held in \<^verbatim>\<open>self.image_label\<close> is alive, or its C++ object is gone
  after \<^verbatim>\<open>deleteLater\<close> (then any further Qt call on it raises RuntimeError).\<close>

datatype qlabel = Alive | Deleted

text \<open>A \<^verbatim>\<open>QPixmap\<close>, as far as the board reads it.\<close>

record QPixmap =
  isNull :: bool
  height :: int

record Gameboard =
  counter :: int
  game_running :: bool
  grid_size :: int
  current_empty_tile :: "pos option"
  image :: "QPixmap option"
  image_label :: "qlabel option"
  tiles :: "(pos \<times> ref) list"
  gamegrid :: "(widget \<times> pos) list"
  heap :: "ref \<Rightarrow> Tile"
  next_ref :: ref
  won_signal :: "int list"

text \<open>
  \<open>heap\<close> holds the \<^verbatim>\<open>Tile\<close> objects, \<open>next_ref\<close> is the next unused reference.
  \<open>won_signal\<close> records every emission of the signal together with the value of
  \<^verbatim>\<open>gameboard.counter\<close> that the connected slot \<^verbatim>\<open>MainWindow.won_game\<close> reads while the
  signal is delivered, latest first.
\<close>

subsection \<open>The layout \<^verbatim>\<open>gamegrid\<close>\<close>

definition itemAtPosition :: "(widget \<times> pos) list \<Rightarrow> pos \<Rightarrow> (widget \<times> pos) option" where
  "itemAtPosition g p = find (\<lambda>it. snd it = p) g"

definition removeItem :: "(widget \<times> pos) list \<Rightarrow> (widget \<times> pos) option \<Rightarrow> (widget \<times> pos) list" where
  "removeItem g it = (case it of None \<Rightarrow> g | Some x \<Rightarrow> remove1 x g)"

definition removeWidget :: "(widget \<times> pos) list \<Rightarrow> widget \<Rightarrow> (widget \<times> pos) list" where
  "removeWidget g w = (case find (\<lambda>it. fst it = w) g of None \<Rightarrow> g | Some x \<Rightarrow> remove1 x g)"

definition addWidget :: "(widget \<times> pos) list \<Rightarrow> widget \<Rightarrow> pos \<Rightarrow> (widget \<times> pos) list" where
  "addWidget g w p = g @ [(w, p)]"

subsection \<open>Python's \<^verbatim>\<open>range\<close>, dictionaries and \<^verbatim>\<open>randint\<close>\<close>

definition range :: "int \<Rightarrow> int list" where
  "range n = [0..n - 1]"

definition dict_get :: "('k \<times> 'v) list \<Rightarrow> 'k \<Rightarrow> error + 'v" where
  "dict_get d k = (case map_of d k of None \<Rightarrow> Inl KeyError | Some v \<Rightarrow> Inr v)"

definition dict_pop :: "('k \<times> 'v) list \<Rightarrow> 'k \<Rightarrow> error + ('v \<times> ('k \<times> 'v) list)" where
  "dict_pop d k = (case map_of d k of None \<Rightarrow> Inl KeyError
     | Some v \<Rightarrow> Inr (v, AList.delete k d))"

definition dict_set :: "('k \<times> 'v) list \<Rightarrow> 'k \<Rightarrow> 'v \<Rightarrow> ('k \<times> 'v) list" where
  "dict_set d k v = AList.update k v d"

text \<open>\<^verbatim>\<open>randint(a, b)\<close> with the raw draw \<open>r\<close>: any value from \<open>a\<close> to \<open>b\<close>, and
  ValueError on an empty range.\<close>

definition randint :: "int \<Rightarrow> int \<Rightarrow> nat \<Rightarrow> error + int" where
  "randint a b r = (if b < a then Inl ValueError else Inr (a + int (r mod nat (b - a + 1))))"

subsection \<open>\<^verbatim>\<open>Tile\<close>\<close>

definition is_in_right_place :: "Tile \<Rightarrow> bool" where
  "is_in_right_place t = (location t = tile_id t)"

text \<open>\<^verbatim>\<open>Tile(location, fraction)\<close>: a new object, both fields set to \<open>location\<close>.\<close>

definition new_Tile :: "Gameboard \<Rightarrow> pos \<Rightarrow> ref \<times> Gameboard" where
  "new_Tile s loc =
     (next_ref s,
      s\<lparr>heap := (heap s)(next_ref s := \<lparr>location = loc, tile_id = loc\<rparr>),
        next_ref := Suc (next_ref s)\<rparr>)"

subsection \<open>\<^verbatim>\<open>Gameboard\<close>\<close>

definition Gameboard_init :: Gameboard where
  "Gameboard_init =
     \<lparr>counter = 0, game_running = False, grid_size = 3, current_empty_tile = None,
      image = None, image_label = None, tiles = [], gamegrid = [],
      heap = (\<lambda>_. \<lparr>location = (0, 0), tile_id = (0, 0)\<rparr>), next_ref = 0,
      won_signal = []\<rparr>"

fun get_neightbor_tiles :: "Gameboard \<Rightarrow> pos \<Rightarrow> pos list" where
  "get_neightbor_tiles s (row, col) =
     (if row > 0 then [(row - 1, col)] else []) @
     (if row < grid_size s - 1 then [(row + 1, col)] else []) @
     (if col > 0 then [(row, col - 1)] else []) @
     (if col < grid_size s - 1 then [(row, col + 1)] else [])"

text \<open>\<^verbatim>\<open>self.current_empty_tile in ...\<close>: \<^verbatim>\<open>None\<close> is in no list of pairs.\<close>

definition moveable_tile :: "Gameboard \<Rightarrow> pos \<Rightarrow> bool" where
  "moveable_tile s loc =
     (case current_empty_tile s of None \<Rightarrow> False
      | Some e \<Rightarrow> e \<in> set (get_neightbor_tiles s loc))"

definition get_moveable_tiles :: "Gameboard \<Rightarrow> pos list" where
  "get_moveable_tiles s =
     concat (map (\<lambda>col. concat (map (\<lambda>row. if moveable_tile s (row, col) then [(row, col)] else [])
                                     (range (grid_size s))))
                 (range (grid_size s)))"


text \<open>The loop of \<^verbatim>\<open>check_win\<close> over \<^verbatim>\<open>self.tiles.values()\<close>.\<close>

fun check_win_loop :: "(ref \<Rightarrow> Tile) \<Rightarrow> ref list \<Rightarrow> bool" where
  "check_win_loop h [] = True"
| "check_win_loop h (r # rs) = (if \<not> is_in_right_place (h r) then False else check_win_loop h rs)"

definition check_win :: "Gameboard \<Rightarrow> bool" where
  "check_win s = check_win_loop (heap s) (map snd (tiles s))"

text \<open>One cell of the double loop of \<^verbatim>\<open>reset_holders\<close>.\<close>

definition reset_cell :: "Gameboard \<Rightarrow> pos \<Rightarrow> Gameboard" where
  "reset_cell s p =
     (case itemAtPosition (gamegrid s) p of None \<Rightarrow> s
      | Some it \<Rightarrow> s\<lparr>gamegrid := removeItem (gamegrid s) (Some it)\<rparr>)"

definition grid_cells :: "int \<Rightarrow> pos list" where
  "grid_cells n = concat (map (\<lambda>col. map (\<lambda>row. (row, col)) (range n)) (range n))"

definition reset_holders :: "Gameboard \<Rightarrow> Gameboard" where
  "reset_holders s =
     (let s1 = s\<lparr>current_empty_tile := Some (grid_size s - 1, grid_size s - 1)\<rparr>;
          s2 = (case image_label s1 of Some Alive \<Rightarrow> s1\<lparr>image_label := None\<rparr> | _ \<Rightarrow> s1);
          s3 = foldl reset_cell s2 (grid_cells (grid_size s2))
      in s3\<lparr>tiles := []\<rparr>)"

definition set_won_state :: "Gameboard \<Rightarrow> bool \<Rightarrow> error + Gameboard" where
  "set_won_state s emit =
     (let s1 = (if emit then s\<lparr>won_signal := counter s # won_signal s\<rparr> else s);
          s2 = reset_holders s1
      in case image s2 of None \<Rightarrow> Inl TypeError
         | Some _ \<Rightarrow>
             Inr (s2\<lparr>image_label := Some Alive,
                     gamegrid := addWidget (gamegrid s2) LabelW (0, 0),
                     game_running := False, counter := 0\<rparr>))"

text \<open>\<^verbatim>\<open>move_tile\<close>. \<open>hidden\<close> is the object \<^verbatim>\<open>self.tiles[self.current_empty_tile]\<close>; \<open>a\<close> and
  \<open>b\<close> are the two objects popped from the dictionary, in the order Python evaluates
  the right-hand side of the swap.\<close>

definition move_tile :: "Gameboard \<Rightarrow> ref \<Rightarrow> string \<Rightarrow> error + Gameboard" where
  "move_tile s tile mode =
     (let s1 = s\<lparr>counter := counter s + 1\<rparr> in
      (case current_empty_tile s1 of None \<Rightarrow> Inl TypeError
       | Some new_location \<Rightarrow>
          (let s2 = s1\<lparr>gamegrid := removeWidget (gamegrid s1) (TileW tile)\<rparr> in
           (case dict_get (tiles s2) new_location of Inl e \<Rightarrow> Inl e
            | Inr hidden \<Rightarrow>
               (let s3 = s2\<lparr>heap := (heap s2)(hidden := (heap s2 hidden)\<lparr>location := location (heap s2 tile)\<rparr>)\<rparr> in
                (case dict_pop (tiles s3) new_location of Inl e \<Rightarrow> Inl e
                 | Inr (a, d1) \<Rightarrow>
                    (case dict_pop d1 (location (heap s3 tile)) of Inl e \<Rightarrow> Inl e
                     | Inr (b, d2) \<Rightarrow>
                        (let d3 = dict_set d2 (location (heap s3 tile)) a;
                             d4 = dict_set d3 new_location b;
                             s4 = s3\<lparr>tiles := d4\<rparr>;
                             s5 = s4\<lparr>gamegrid := addWidget (gamegrid s4) (TileW tile) new_location\<rparr>
                         in Inr (s5\<lparr>current_empty_tile := Some (location (heap s5 tile)),
                                    heap := (heap s5)(tile := (heap s5 tile)\<lparr>location := new_location\<rparr>)\<rparr>)))))))))"

definition tile_clicked :: "Gameboard \<Rightarrow> ref \<Rightarrow> error + Gameboard" where
  "tile_clicked s tile =
     (if \<not> game_running s then Inr s
      else if moveable_tile s (location (heap s tile)) then
        (case move_tile s tile ''fade'' of Inl e \<Rightarrow> Inl e
         | Inr s1 \<Rightarrow> if check_win s1 then set_won_state s1 True else Inr s1)
      else Inr s)"

text \<open>The body of the double loop that creates the tiles in \<^verbatim>\<open>shuffle\<close>.\<close>

definition make_tile :: "Gameboard \<Rightarrow> pos \<Rightarrow> Gameboard" where
  "make_tile s p =
     (let (r, s1) = new_Tile s p;
          s2 = s1\<lparr>tiles := dict_set (tiles s1) p r\<rparr>
      in s2\<lparr>gamegrid := addWidget (gamegrid s2) (TileW r) p\<rparr>)"

text \<open>\<^verbatim>\<open>shuffle\<close> up to the random walk (the branch taken when no game is running).\<close>

definition shuffle_setup :: "Gameboard \<Rightarrow> int \<Rightarrow> error + Gameboard" where
  "shuffle_setup s n =
     (let s1 = s\<lparr>grid_size := n\<rparr>;
          s2 = s1\<lparr>gamegrid := removeItem (gamegrid s1) (itemAtPosition (gamegrid s1) (0, 0))\<rparr>
      in (case image_label s2 of None \<Rightarrow> Inl AttributeError
          | Some Deleted \<Rightarrow> Inl RuntimeError
          | Some Alive \<Rightarrow>
             (let s3 = s2\<lparr>image_label := Some Deleted\<rparr> in
              (case image s3 of None \<Rightarrow> Inl AttributeError
               | Some _ \<Rightarrow>
                  (if grid_size s3 = 0 then Inl ZeroDivisionError
                   else
                     (let s4 = foldl make_tile s3 (grid_cells (grid_size s3));
                          corner = (grid_size s4 - 1, grid_size s4 - 1);
                          s5 = s4\<lparr>gamegrid := removeItem (gamegrid s4) (itemAtPosition (gamegrid s4) corner)\<rparr>;
                          s6 = s5\<lparr>current_empty_tile := Some corner\<rparr>
                      in (case dict_get (tiles s6) corner of Inl e \<Rightarrow> Inl e
                          | Inr _ \<Rightarrow> Inr s6)))))))"

text \<open>One random move of the walk; \<open>r\<close> is the draw of \<^verbatim>\<open>randint\<close>.\<close>

definition random_move :: "Gameboard \<Rightarrow> nat \<Rightarrow> error + Gameboard" where
  "random_move s r =
     (case current_empty_tile s of None \<Rightarrow> Inl TypeError
      | Some e \<Rightarrow>
          (let neightbors = get_neightbor_tiles s e in
           (case randint 0 (int (length neightbors) - 1) r of Inl err \<Rightarrow> Inl err
            | Inr i \<Rightarrow>
               (if \<not> (0 \<le> i \<and> i < int (length neightbors)) then Inl IndexError
                else (case dict_get (tiles s) (neightbors ! nat i) of Inl err \<Rightarrow> Inl err
                      | Inr tile \<Rightarrow> move_tile s tile ''normal'')))))"

text \<open>The \<^verbatim>\<open>for\<close> loop of one pass: \<open>k\<close> moves, with the draws \<open>rnd i\<close>, \<open>rnd (i + 1)\<close>, ...\<close>

fun shuffle_pass :: "nat \<Rightarrow> (nat \<Rightarrow> nat) \<Rightarrow> nat \<Rightarrow> Gameboard \<Rightarrow> error + Gameboard" where
  "shuffle_pass 0 rnd i s = Inr s"
| "shuffle_pass (Suc k) rnd i s =
     (case random_move s (rnd i) of Inl e \<Rightarrow> Inl e
      | Inr s1 \<Rightarrow> shuffle_pass k rnd (Suc i) s1)"

definition accepted :: "Gameboard \<Rightarrow> bool" where
  "accepted s =
     (current_empty_tile s = Some (grid_size s - 1, grid_size s - 1) \<and> \<not> check_win s)"

text \<open>The \<^verbatim>\<open>while True\<close> loop. It need not end: the result is \<open>None\<close> when it runs forever.\<close>

partial_function (option) shuffle_loop ::
  "(nat \<Rightarrow> nat) \<Rightarrow> nat \<Rightarrow> Gameboard \<Rightarrow> (error + Gameboard) option" where
  "shuffle_loop rnd i s =
     (case shuffle_pass (nat ((grid_size s)\<^sup>2)) rnd i s of Inl e \<Rightarrow> Some (Inl e)
      | Inr s1 \<Rightarrow>
          if accepted s1 then Some (Inr s1)
          else shuffle_loop rnd (i + nat ((grid_size s)\<^sup>2)) s1)"

definition shuffle :: "Gameboard \<Rightarrow> int \<Rightarrow> (nat \<Rightarrow> nat) \<Rightarrow> (error + Gameboard) option" where
  "shuffle s n rnd =
     (if game_running s then Some (set_won_state s False)
      else case shuffle_setup s n of Inl e \<Rightarrow> Some (Inl e)
           | Inr s1 \<Rightarrow>
               (case shuffle_loop rnd 0 s1 of None \<Rightarrow> None
                | Some (Inl e) \<Rightarrow> Some (Inl e)
                | Some (Inr s2) \<Rightarrow> Some (Inr (s2\<lparr>game_running := True, counter := 0\<rparr>))))"

text \<open>\<^verbatim>\<open>load_image\<close> with a non-empty \<^verbatim>\<open>file_path\<close>, as \<^verbatim>\<open>browse_n_load\<close> calls it; \<open>pix\<close> is
  the pixmap that \<^verbatim>\<open>QPixmap(file_path)\<close> decodes, already cropped and scaled.\<close>

definition load_image :: "Gameboard \<Rightarrow> QPixmap \<Rightarrow> error + Gameboard" where
  "load_image s pix =
     (let s1 = reset_holders s;
          s2 = s1\<lparr>image := Some pix\<rparr>
      in if isNull pix then Inl InvalidImage
         else Inr (s2\<lparr>image_label := Some Alive,
                      gamegrid := addWidget (gamegrid s2) LabelW (0, 0)\<rparr>))"

subsection \<open>Notions used to state the properties\<close>

text \<open>A position of the \<open>n \<times> n\<close> grid, and orthogonal adjacency of two positions.\<close>

definition in_grid :: "int \<Rightarrow> pos \<Rightarrow> bool" where
  "in_grid n p = (0 \<le> fst p \<and> fst p < n \<and> 0 \<le> snd p \<and> snd p < n)"

definition adjacent :: "pos \<Rightarrow> pos \<Rightarrow> bool" where
  "adjacent p q =
     ((fst p = fst q \<and> \<bar>snd p - snd q\<bar> = 1) \<or> (snd p = snd q \<and> \<bar>fst p - fst q\<bar> = 1))"

text \<open>The board while tiles are laid out: the keys of \<^verbatim>\<open>self.tiles\<close> are the grid positions,
  every tile object is stored under its own \<^verbatim>\<open>location\<close>, and the layout shows every tile
  but the one stored under the empty cell.\<close>

definition board_inv :: "Gameboard \<Rightarrow> bool" where
  "board_inv s =
     (1 \<le> grid_size s \<and> image s \<noteq> None \<and>
      (\<exists>e. current_empty_tile s = Some e \<and> in_grid (grid_size s) e \<and>
         distinct (map fst (tiles s)) \<and>
         dom (map_of (tiles s)) = {p. in_grid (grid_size s) p} \<and>
         (\<forall>p r. map_of (tiles s) p = Some r \<longrightarrow> location (heap s r) = p) \<and>
         distinct (map snd (gamegrid s)) \<and>
         (\<forall>w q. ((w, q) \<in> set (gamegrid s)) =
                  (\<exists>r. w = TileW r \<and> map_of (tiles s) q = Some r \<and> q \<noteq> e))))"

text \<open>The board while \<^verbatim>\<open>shuffle\<close> creates the tiles; \<open>D\<close> is the set of cells done.\<close>

definition setup_inv :: "pos set \<Rightarrow> Gameboard \<Rightarrow> bool" where
  "setup_inv D s =
     (distinct (map fst (tiles s)) \<and> dom (map_of (tiles s)) = D \<and>
      (\<forall>p r. map_of (tiles s) p = Some r \<longrightarrow>
          location (heap s r) = p \<and> tile_id (heap s r) = p \<and> r < next_ref s) \<and>
      distinct (map snd (gamegrid s)) \<and>
      (\<forall>w q. ((w, q) \<in> set (gamegrid s)) = (\<exists>r. w = TileW r \<and> map_of (tiles s) q = Some r)))"

text \<open>The board while no game is running: no tiles, and the layout shows the whole image
  once one is loaded.\<close>

definition idle_inv :: "Gameboard \<Rightarrow> bool" where
  "idle_inv s =
     (1 \<le> grid_size s \<and> tiles s = [] \<and>
      (case image s of None \<Rightarrow> gamegrid s = [] \<and> image_label s = None
       | Some _ \<Rightarrow> gamegrid s = [(LabelW, (0, 0))] \<and> image_label s = Some Alive) \<and>
      (current_empty_tile s = None \<or>
       current_empty_tile s = Some (grid_size s - 1, grid_size s - 1)))"

definition gameboard_inv :: "Gameboard \<Rightarrow> bool" where
  "gameboard_inv s = (if game_running s then board_inv s else idle_inv s)"

subsection \<open>Legal moves and reachable boards\<close>

text \<open>A legal move slides a tile that lies next to the empty cell into it: the cell \<open>p\<close> of
  the tile passes the test \<^verbatim>\<open>moveable_tile\<close> and the board changes by \<^verbatim>\<open>move_tile\<close>.\<close>

inductive legal_move :: "Gameboard \<Rightarrow> Gameboard \<Rightarrow> bool" where
  "current_empty_tile s = Some e \<Longrightarrow> map_of (tiles s) p = Some t \<Longrightarrow> adjacent p e \<Longrightarrow>
   moveable_tile s p \<Longrightarrow> move_tile s t mode = Inr s' \<Longrightarrow> legal_move s s'"

text \<open>The boards the running program passes through: after \<^verbatim>\<open>__init__\<close>, every handler that
  returns normally leads to the next board. The browse button is disabled while a game runs,
  and only a tile widget shown in the layout can send a click.\<close>

inductive reachable :: "Gameboard \<Rightarrow> bool" where
  init: "reachable Gameboard_init"
| load: "reachable s \<Longrightarrow> \<not> game_running s \<Longrightarrow> load_image s pix = Inr s' \<Longrightarrow> reachable s'"
| shuffle: "reachable s \<Longrightarrow> shuffle s n rnd = Some (Inr s') \<Longrightarrow> reachable s'"
| click: "reachable s \<Longrightarrow> (TileW t, p) \<in> set (gamegrid s) \<Longrightarrow> tile_clicked s t = Inr s' \<Longrightarrow>
          reachable s'"

text \<open>Two boards with the same grid, empty cell, mapping from positions to tiles and tile
  objects; the counter and the order of the dictionary keys may differ.\<close>

definition same_layout :: "Gameboard \<Rightarrow> Gameboard \<Rightarrow> bool" where
  "same_layout a b =
     (grid_size a = grid_size b \<and> current_empty_tile a = current_empty_tile b \<and>
      map_of (tiles a) = map_of (tiles b) \<and> heap a = heap b)"

subsection \<open>The bijection between cells and tiles\<close>


subsection \<open>Concrete boards\<close>

text \<open>A loaded image, the board after \<^verbatim>\<open>load_image\<close>, the 2 x 2 board after the tiles are
  created, and the board after \<^verbatim>\<open>shuffle(2)\<close> with the draws 0, 1, 2, 3 (the empty cell walks
  once around the grid).\<close>

definition pix0 :: QPixmap where
  "pix0 = \<lparr>isNull = False, height = 600\<rparr>"

definition heap_of :: "(ref \<times> pos \<times> pos) list \<Rightarrow> ref \<Rightarrow> Tile" where
  "heap_of xs r = (case map_of xs r of None \<Rightarrow> \<lparr>location = (0, 0), tile_id = (0, 0)\<rparr>
     | Some (l, i) \<Rightarrow> \<lparr>location = l, tile_id = i\<rparr>)"

definition loaded :: Gameboard where
  "loaded =
     \<lparr>counter = 0, game_running = False, grid_size = 3, current_empty_tile = Some (2, 2),
      image = Some pix0, image_label = Some Alive, tiles = [], gamegrid = [(LabelW, (0, 0))],
      heap = heap_of [], next_ref = 0, won_signal = []\<rparr>"

definition setup2 :: Gameboard where
  "setup2 =
     \<lparr>counter = 0, game_running = False, grid_size = 2, current_empty_tile = Some (1, 1),
      image = Some pix0, image_label = Some Deleted,
      tiles = [((0, 0), 0), ((1, 0), 1), ((0, 1), 2), ((1, 1), 3)],
      gamegrid = [(TileW 0, (0, 0)), (TileW 1, (1, 0)), (TileW 2, (0, 1))],
      heap = heap_of [(0, (0, 0), (0, 0)), (1, (1, 0), (1, 0)), (2, (0, 1), (0, 1)), (3, (1, 1), (1, 1))],
      next_ref = 4, won_signal = []\<rparr>"

definition game2 :: Gameboard where
  "game2 =
     \<lparr>counter = 0, game_running = True, grid_size = 2, current_empty_tile = Some (1, 1),
      image = Some pix0, image_label = Some Deleted,
      tiles = [((0, 1), 0), ((0, 0), 1), ((1, 1), 3), ((1, 0), 2)],
      gamegrid = [(TileW 0, (0, 1)), (TileW 1, (0, 0)), (TileW 2, (1, 0))],
      heap = heap_of [(0, (0, 1), (0, 0)), (1, (0, 0), (1, 0)), (2, (1, 0), (0, 1)), (3, (1, 1), (1, 1))],
      next_ref = 4, won_signal = []\<rparr>"

text \<open>The boards after clicking, from \<open>game2\<close>, the tiles 2, 1 and 0 in turn; one more click on
  tile 2 solves the puzzle and leaves \<open>won2\<close>.\<close>

definition game2a :: Gameboard where
  "game2a =
     \<lparr>counter = 1, game_running = True, grid_size = 2, current_empty_tile = Some (1, 0),
      image = Some pix0, image_label = Some Deleted,
      tiles = [((0, 1), 0), ((0, 0), 1), ((1, 0), 3), ((1, 1), 2)],
      gamegrid = [(TileW 0, (0, 1)), (TileW 1, (0, 0)), (TileW 2, (1, 1))],
      heap = heap_of [(0, (0, 1), (0, 0)), (1, (0, 0), (1, 0)), (2, (1, 1), (0, 1)), (3, (1, 0), (1, 1))],
      next_ref = 4, won_signal = []\<rparr>"

definition game2b :: Gameboard where
  "game2b =
     \<lparr>counter = 2, game_running = True, grid_size = 2, current_empty_tile = Some (0, 0),
      image = Some pix0, image_label = Some Deleted,
      tiles = [((0, 1), 0), ((1, 1), 2), ((0, 0), 3), ((1, 0), 1)],
      gamegrid = [(TileW 0, (0, 1)), (TileW 2, (1, 1)), (TileW 1, (1, 0))],
      heap = heap_of [(0, (0, 1), (0, 0)), (1, (1, 0), (1, 0)), (2, (1, 1), (0, 1)), (3, (0, 0), (1, 1))],
      next_ref = 4, won_signal = []\<rparr>"

definition almost_won :: Gameboard where
  "almost_won =
     \<lparr>counter = 3, game_running = True, grid_size = 2, current_empty_tile = Some (0, 1),
      image = Some pix0, image_label = Some Deleted,
      tiles = [((1, 1), 2), ((1, 0), 1), ((0, 1), 3), ((0, 0), 0)],
      gamegrid = [(TileW 2, (1, 1)), (TileW 1, (1, 0)), (TileW 0, (0, 0))],
      heap = heap_of [(0, (0, 0), (0, 0)), (1, (1, 0), (1, 0)), (2, (1, 1), (0, 1)), (3, (0, 1), (1, 1))],
      next_ref = 4, won_signal = []\<rparr>"

text \<open>The board \<^verbatim>\<open>move_tile\<close> returns for tile 2 on \<open>almost_won\<close>: every tile is at home.\<close>

definition solved2 :: Gameboard where
  "solved2 =
     \<lparr>counter = 4, game_running = True, grid_size = 2, current_empty_tile = Some (1, 1),
      image = Some pix0, image_label = Some Deleted,
      tiles = [((1, 0), 1), ((0, 0), 0), ((1, 1), 3), ((0, 1), 2)],
      gamegrid = [(TileW 1, (1, 0)), (TileW 0, (0, 0)), (TileW 2, (0, 1))],
      heap = heap_of [(0, (0, 0), (0, 0)), (1, (1, 0), (1, 0)), (2, (0, 1), (0, 1)), (3, (1, 1), (1, 1))],
      next_ref = 4, won_signal = []\<rparr>"

definition won2 :: Gameboard where
  "won2 =
     \<lparr>counter = 0, game_running = False, grid_size = 2, current_empty_tile = Some (1, 1),
      image = Some pix0, image_label = Some Alive, tiles = [], gamegrid = [(LabelW, (0, 0))],
      heap = heap_of [(0, (0, 0), (0, 0)), (1, (1, 0), (1, 0)), (2, (0, 1), (0, 1)), (3, (1, 1), (1, 1))],
      next_ref = 4, won_signal = [4]\<rparr>"

text \<open>Draws that lead the empty cell once around the 2 x 2 block in the corner of a grid of
  size 3 or more (up, left, down, right) and then up and down again and again.\<close>

definition walk_rnd :: "nat \<Rightarrow> nat" where
  "walk_rnd i = (if i = 0 then 0 else if i = 1 then 2 else if i = 2 then 1
                 else if i = 3 then 2 else i mod 2)"

section \<open>Auxiliary facts\<close>

subsection \<open>The grid and its neighbours\<close>

lemma set_range: "set (range n) = {i. 0 \<le> i \<and> i < n}"
  by (auto simp: range_def)

lemma distinct_range: "distinct (range n)"
  by (simp add: range_def)

lemma set_grid_cells: "set (grid_cells n) = {p. in_grid n p}"
  by (auto simp: grid_cells_def set_range in_grid_def)

lemma distinct_grid_cells: "distinct (grid_cells n)"
  unfolding grid_cells_def
  by (rule distinct_concat) (auto simp: distinct_map distinct_range inj_on_def)

lemma mem_neighbors:
  "in_grid (grid_size s) p \<Longrightarrow>
   q \<in> set (get_neightbor_tiles s p) \<longleftrightarrow> in_grid (grid_size s) q \<and> adjacent q p"
  by (cases p; cases q) (auto simp: in_grid_def adjacent_def)

lemma adjacent_sym: "adjacent p q \<longleftrightarrow> adjacent q p"
  by (auto simp: adjacent_def)

lemma adjacent_neq: "adjacent p q \<Longrightarrow> p \<noteq> q"
  by (auto simp: adjacent_def)

subsection \<open>\<^verbatim>\<open>move_tile\<close> on a laid-out board\<close>

lemma move_tile_eq:
  assumes "current_empty_tile s = Some e" "map_of (tiles s) e = Some h"
    "location (heap s r) = p" "map_of (tiles s) p = Some b" "p \<noteq> e" "h \<noteq> r"
  shows "move_tile s r mode =
    Inr (s\<lparr>counter := counter s + 1,
           gamegrid := addWidget (removeWidget (gamegrid s) (TileW r)) (TileW r) e,
           heap := (heap s)(h := (heap s h)\<lparr>location := p\<rparr>, r := (heap s r)\<lparr>location := e\<rparr>),
           tiles := dict_set (dict_set (AList.delete p (AList.delete e (tiles s))) p h) e b,
           current_empty_tile := Some p\<rparr>)"
  using assms
  by (simp add: move_tile_def dict_get_def dict_pop_def Let_def delete_conv')

lemma find_unique:
  assumes "x \<in> set xs" "P x" "\<And>y. y \<in> set xs \<Longrightarrow> P y \<Longrightarrow> y = x"
  shows "find P xs = Some x"
proof -
  from assms(1,2) have "find P xs \<noteq> None" by (auto simp: find_None_iff)
  then obtain y where y: "find P xs = Some y" by blast
  then have "y \<in> set xs" "P y" by (auto simp: find_Some_iff)
  then have "y = x" by (rule assms(3))
  with y show ?thesis by simp
qed

lemma distinct_map_remove1: "distinct (map f xs) \<Longrightarrow> distinct (map f (remove1 x xs))"
  by (auto simp: distinct_map intro: inj_on_diff)

lemma distinct_map_fst_imp: "distinct (map f xs) \<Longrightarrow> distinct xs"
  by (rule distinct_map[THEN iffD1, THEN conjunct1])

lemma board_inv_move:
  assumes inv: "board_inv s" and e: "current_empty_tile s = Some e"
    and r: "map_of (tiles s) p = Some r" and pe: "p \<noteq> e"
  shows "\<exists>s' h. move_tile s r mode = Inr s' \<and> map_of (tiles s) e = Some h \<and> h \<noteq> r \<and>
           board_inv s' \<and> current_empty_tile s' = Some p \<and>
           counter s' = counter s + 1 \<and>
           map_of (tiles s') = (map_of (tiles s))(p \<mapsto> h, e \<mapsto> r) \<and>
           heap s' = (heap s)(h := (heap s h)\<lparr>location := p\<rparr>, r := (heap s r)\<lparr>location := e\<rparr>) \<and>
           grid_size s' = grid_size s \<and> game_running s' = game_running s \<and>
           image s' = image s \<and> image_label s' = image_label s \<and>
           won_signal s' = won_signal s \<and> next_ref s' = next_ref s"
proof -
  let ?n = "grid_size s"
  let ?m = "map_of (tiles s)"
  from inv e have n: "1 \<le> ?n" and img: "image s \<noteq> None" and eg: "in_grid ?n e"
    and dk: "distinct (map fst (tiles s))"
    and dm: "dom ?m = {p. in_grid ?n p}"
    and loc: "\<And>p r. ?m p = Some r \<Longrightarrow> location (heap s r) = p"
    and dg: "distinct (map snd (gamegrid s))"
    and sg: "\<And>w q. ((w, q) \<in> set (gamegrid s)) = (\<exists>r. w = TileW r \<and> ?m q = Some r \<and> q \<noteq> e)"
    by (auto simp: board_inv_def)
  have inj: "\<And>q q' t. ?m q = Some t \<Longrightarrow> ?m q' = Some t \<Longrightarrow> q = q'"
    using loc by metis
  from eg dm obtain h where h: "?m e = Some h" by blast
  from r dm have pg: "in_grid ?n p" by blast
  have hr: "h \<noteq> r" using loc[OF h] loc[OF r] pe by auto
  have lr: "location (heap s r) = p" by (rule loc[OF r])
  define g' where "g' = addWidget (removeWidget (gamegrid s) (TileW r)) (TileW r) e"
  define s' where "s' = s\<lparr>counter := counter s + 1,
           gamegrid := g',
           heap := (heap s)(h := (heap s h)\<lparr>location := p\<rparr>, r := (heap s r)\<lparr>location := e\<rparr>),
           tiles := dict_set (dict_set (AList.delete p (AList.delete e (tiles s))) p h) e r,
           current_empty_tile := Some p\<rparr>"
  have mv: "move_tile s r mode = Inr s'"
    unfolding s'_def g'_def by (rule move_tile_eq[OF e h lr r pe hr])
  have m': "map_of (tiles s') = ?m(p \<mapsto> h, e \<mapsto> r)"
    by (simp add: s'_def dict_set_def update_conv' delete_conv' fun_eq_iff)
  have dk': "distinct (map fst (tiles s'))"
    by (simp add: s'_def dict_set_def distinct_update distinct_delete dk)
  have dm': "dom (map_of (tiles s')) = {p. in_grid ?n p}"
    unfolding m' using dm pg eg by auto
  have hp: "heap s' = (heap s)(h := (heap s h)\<lparr>location := p\<rparr>, r := (heap s r)\<lparr>location := e\<rparr>)"
    by (simp add: s'_def)
  have loc': "\<forall>q t. map_of (tiles s') q = Some t \<longrightarrow> location (heap s' t) = q"
  proof (intro allI impI)
    fix q t assume a: "map_of (tiles s') q = Some t"
    show "location (heap s' t) = q"
    proof (cases "q = e")
      case True
      with a have "t = r" by (simp add: m')
      then show ?thesis using True by (simp add: hp)
    next
      case qe: False
      show ?thesis
      proof (cases "q = p")
        case True
        with a qe pe have "t = h" by (simp add: m')
        then show ?thesis using True hr by (simp add: hp)
      next
        case False
        with a qe have mq: "?m q = Some t" by (simp add: m')
        have "t \<noteq> h" using inj[of q t e] mq h qe by blast
        moreover have "t \<noteq> r" using inj[of q t p] mq r False by blast
        ultimately show ?thesis using loc[OF mq] by (simp add: hp)
      qed
    qed
  qed
  have item: "(TileW r, p) \<in> set (gamegrid s)" using sg r pe by simp
  have uniq: "y = (TileW r, p)" if "y \<in> set (gamegrid s)" "fst y = TileW r" for y
  proof -
    obtain w q where y: "y = (w, q)" by (cases y)
    with that sg[of w q] have "?m q = Some r" by auto
    with inj[OF this r] y that show ?thesis by simp
  qed
  have fnd: "find (\<lambda>it. fst it = TileW r) (gamegrid s) = Some (TileW r, p)"
  proof (rule find_unique[OF item])
    show "fst (TileW r, p) = TileW r" by simp
  next
    fix y assume "y \<in> set (gamegrid s)" "fst y = TileW r"
    then show "y = (TileW r, p)" by (rule uniq)
  qed
  have rw: "removeWidget (gamegrid s) (TileW r) = remove1 (TileW r, p) (gamegrid s)"
    by (simp add: removeWidget_def fnd)
  have dgl: "distinct (gamegrid s)" using dg by (rule distinct_map_fst_imp)
  have noe: "e \<notin> snd ` set (gamegrid s)" using sg by (auto simp: image_iff)
  have set_g': "set g' = (set (gamegrid s) - {(TileW r, p)}) \<union> {(TileW r, e)}"
    unfolding g'_def addWidget_def rw by (simp add: set_remove1_eq[OF dgl])
  have "distinct (map snd (remove1 (TileW r, p) (gamegrid s)))"
    by (rule distinct_map_remove1[OF dg])
  moreover have "e \<notin> snd ` set (remove1 (TileW r, p) (gamegrid s))"
    using noe set_remove1_subset[of "(TileW r, p)" "gamegrid s"] by blast
  ultimately have dg': "distinct (map snd g')"
    unfolding g'_def addWidget_def rw by simp
  have fr: "current_empty_tile s' = Some p" "counter s' = counter s + 1"
    "grid_size s' = grid_size s" "game_running s' = game_running s"
    "image s' = image s" "image_label s' = image_label s"
    "won_signal s' = won_signal s" "next_ref s' = next_ref s" "gamegrid s' = g'"
    by (simp_all add: s'_def)
  have sg': "((w, q) \<in> set g') =
      (\<exists>t. w = TileW t \<and> map_of (tiles s') q = Some t \<and> q \<noteq> p)" for w q
  proof (cases "q = e")
    case True
    have "(w, e) \<notin> set (gamegrid s)" using sg[of w e] by simp
    then have "((w, e) \<in> set g') = (w = TileW r)" by (simp add: set_g')
    moreover have "map_of (tiles s') e = Some r" by (simp add: m')
    ultimately show ?thesis using True pe by auto
  next
    case qe: False
    show ?thesis
    proof (cases "q = p")
      case True
      have "(w, p) \<in> set (gamegrid s) \<Longrightarrow> w = TileW r" using sg[of w p] r by simp
      then have "(w, p) \<notin> set g'" using pe by (auto simp: set_g')
      then show ?thesis using True by simp
    next
      case False
      have "((w, q) \<in> set g') = ((w, q) \<in> set (gamegrid s))"
        using False qe by (simp add: set_g')
      moreover have "map_of (tiles s') q = ?m q" using False qe by (simp add: m')
      ultimately show ?thesis using sg[of w q] qe False by simp
    qed
  qed
  have binv: "board_inv s'"
    unfolding board_inv_def fr
    using n img pg dk' dm' loc' dg' sg' by blast
  show ?thesis
    using mv h hr binv m' hp fr by blast
qed

lemma move_tile_frame:
  assumes "move_tile s r mode = Inr s'"
  shows "grid_size s' = grid_size s \<and> game_running s' = game_running s \<and>
         image s' = image s \<and> image_label s' = image_label s \<and>
         won_signal s' = won_signal s \<and> next_ref s' = next_ref s \<and>
         counter s' = counter s + 1 \<and> (\<forall>x. tile_id (heap s' x) = tile_id (heap s x))"
  using assms
  by (auto simp: move_tile_def Let_def split: option.splits sum.splits prod.splits)

subsection \<open>Creating the tiles\<close>

lemma make_tile_eq:
  "make_tile s p =
     s\<lparr>heap := (heap s)(next_ref s := \<lparr>location = p, tile_id = p\<rparr>),
       next_ref := Suc (next_ref s),
       tiles := AList.update p (next_ref s) (tiles s),
       gamegrid := gamegrid s @ [(TileW (next_ref s), p)]\<rparr>"
  by (simp add: make_tile_def new_Tile_def dict_set_def addWidget_def)

lemma make_tile_frame:
  "grid_size (make_tile s p) = grid_size s \<and> game_running (make_tile s p) = game_running s \<and>
   image (make_tile s p) = image s \<and> image_label (make_tile s p) = image_label s \<and>
   won_signal (make_tile s p) = won_signal s \<and> counter (make_tile s p) = counter s \<and>
   current_empty_tile (make_tile s p) = current_empty_tile s"
  by (simp add: make_tile_eq)

lemma make_tile_inv:
  assumes "setup_inv D s" "p \<notin> D"
  shows "setup_inv (insert p D) (make_tile s p)"
proof -
  let ?m = "map_of (tiles s)"
  let ?r = "next_ref s"
  from assms have dk: "distinct (map fst (tiles s))" and dm: "dom ?m = D"
    and loc: "\<And>q t. ?m q = Some t \<Longrightarrow> location (heap s t) = q \<and> tile_id (heap s t) = q \<and> t < ?r"
    and dg: "distinct (map snd (gamegrid s))"
    and sg: "\<And>w q. ((w, q) \<in> set (gamegrid s)) = (\<exists>r. w = TileW r \<and> ?m q = Some r)"
    by (auto simp: setup_inv_def)
  have mp: "?m p = None" using dm assms(2) by blast
  have m': "map_of (tiles (make_tile s p)) = ?m(p \<mapsto> ?r)"
    by (simp add: make_tile_eq update_conv')
  have 1: "distinct (map fst (tiles (make_tile s p)))"
    by (simp add: make_tile_eq distinct_update dk)
  have 2: "dom (map_of (tiles (make_tile s p))) = insert p D"
    unfolding m' using dm by simp
  have 3: "\<forall>q t. map_of (tiles (make_tile s p)) q = Some t \<longrightarrow>
      location (heap (make_tile s p) t) = q \<and> tile_id (heap (make_tile s p) t) = q \<and>
      t < next_ref (make_tile s p)"
  proof (intro allI impI)
    fix q t assume a: "map_of (tiles (make_tile s p)) q = Some t"
    show "location (heap (make_tile s p) t) = q \<and> tile_id (heap (make_tile s p) t) = q \<and>
      t < next_ref (make_tile s p)"
    proof (cases "q = p")
      case True
      with a have "t = ?r" by (simp add: m')
      then show ?thesis using True by (simp add: make_tile_eq)
    next
      case False
      with a have mq: "?m q = Some t" by (simp add: m')
      from loc[OF mq] show ?thesis by (simp add: make_tile_eq)
    qed
  qed
  have nop: "p \<notin> snd ` set (gamegrid s)"
  proof
    assume "p \<in> snd ` set (gamegrid s)"
    then obtain w where "(w, p) \<in> set (gamegrid s)" by (auto simp: image_iff)
    with sg[of w p] mp show False by simp
  qed
  have 4: "distinct (map snd (gamegrid (make_tile s p)))"
    using dg nop by (simp add: make_tile_eq)
  have 5: "\<forall>w q. ((w, q) \<in> set (gamegrid (make_tile s p))) =
      (\<exists>r. w = TileW r \<and> map_of (tiles (make_tile s p)) q = Some r)"
    unfolding m' using sg mp by (auto simp: make_tile_eq)
  show ?thesis unfolding setup_inv_def using 1 2 3 4 5 by blast
qed

lemma foldl_make_tile_inv:
  "setup_inv D s \<Longrightarrow> distinct cs \<Longrightarrow> set cs \<inter> D = {} \<Longrightarrow>
   setup_inv (D \<union> set cs) (foldl make_tile s cs)"
proof (induction cs arbitrary: s D)
  case Nil
  then show ?case by simp
next
  case (Cons c cs)
  from Cons.prems have "setup_inv (insert c D) (make_tile s c)"
    by (intro make_tile_inv) auto
  moreover from Cons.prems have "distinct cs" "set cs \<inter> insert c D = {}" by auto
  ultimately have "setup_inv (insert c D \<union> set cs) (foldl make_tile (make_tile s c) cs)"
    by (rule Cons.IH)
  then show ?case by simp
qed

lemma foldl_make_tile_frame:
  "grid_size (foldl make_tile s cs) = grid_size s \<and>
   game_running (foldl make_tile s cs) = game_running s \<and>
   image (foldl make_tile s cs) = image s \<and>
   image_label (foldl make_tile s cs) = image_label s \<and>
   won_signal (foldl make_tile s cs) = won_signal s \<and>
   counter (foldl make_tile s cs) = counter s \<and>
   current_empty_tile (foldl make_tile s cs) = current_empty_tile s"
  by (induction cs arbitrary: s) (simp_all add: make_tile_frame)

subsection \<open>\<^verbatim>\<open>check_win\<close>\<close>

lemma check_win_loop_iff:
  "check_win_loop h rs \<longleftrightarrow> (\<forall>r \<in> set rs. is_in_right_place (h r))"
  by (induction rs) auto

lemma check_win_iff:
  "check_win s \<longleftrightarrow> (\<forall>(p, r) \<in> set (tiles s). location (heap s r) = tile_id (heap s r))"
  by (auto simp: check_win_def check_win_loop_iff is_in_right_place_def)

lemma check_win_map_of:
  "distinct (map fst (tiles s)) \<Longrightarrow>
   check_win s \<longleftrightarrow> (\<forall>p r. map_of (tiles s) p = Some r \<longrightarrow> location (heap s r) = tile_id (heap s r))"
  by (auto simp: check_win_iff)

subsection \<open>What the random walk leaves unchanged\<close>

lemma random_move_frame:
  assumes "random_move s r = Inr s'"
  shows "grid_size s' = grid_size s \<and> game_running s' = game_running s \<and>
         image s' = image s \<and> image_label s' = image_label s \<and>
         won_signal s' = won_signal s \<and> next_ref s' = next_ref s \<and>
         counter s' = counter s + 1 \<and> (\<forall>x. tile_id (heap s' x) = tile_id (heap s x))"
proof -
  from assms obtain t where "move_tile s t ''normal'' = Inr s'"
    by (auto simp: random_move_def Let_def split: option.splits sum.splits if_splits)
  then show ?thesis by (rule move_tile_frame)
qed

lemma shuffle_pass_frame:
  "shuffle_pass k rnd i s = Inr s' \<Longrightarrow>
     grid_size s' = grid_size s \<and> game_running s' = game_running s \<and>
     image s' = image s \<and> image_label s' = image_label s \<and>
     won_signal s' = won_signal s \<and> next_ref s' = next_ref s \<and>
     counter s' = counter s + int k \<and> (\<forall>x. tile_id (heap s' x) = tile_id (heap s x))"
proof (induction k arbitrary: i s)
  case 0
  then show ?case by simp
next
  case (Suc k)
  from Suc.prems obtain s1 where 1: "random_move s (rnd i) = Inr s1"
    and 2: "shuffle_pass k rnd (Suc i) s1 = Inr s'"
    by (auto split: sum.splits)
  from random_move_frame[OF 1] Suc.IH[OF 2] show ?case by simp
qed

lemma shuffle_loop_accepted:
  assumes "shuffle_loop rnd i s = Some (Inr s')"
  shows "accepted s' \<and> grid_size s' = grid_size s \<and>
         game_running s' = game_running s \<and> won_signal s' = won_signal s"
proof -
  have "\<forall>t. (Inr s' :: error + Gameboard) = Inr t \<longrightarrow> accepted t \<and> grid_size t = grid_size s \<and>
         game_running t = game_running s \<and> won_signal t = won_signal s"
  proof (rule shuffle_loop.raw_induct[where
        P = "\<lambda>rnd i s y. \<forall>s'. y = Inr s' \<longrightarrow> accepted s' \<and> grid_size s' = grid_size s \<and>
               game_running s' = game_running s \<and> won_signal s' = won_signal s",
        OF _ assms])
    fix loop :: "(nat \<Rightarrow> nat) \<Rightarrow> nat \<Rightarrow> Gameboard \<Rightarrow> (error + Gameboard) option"
      and rnd i s y
    assume IH: "\<And>rnd i s y. loop rnd i s = Some y \<Longrightarrow>
        \<forall>s'. y = Inr s' \<longrightarrow> accepted s' \<and> grid_size s' = grid_size s \<and>
               game_running s' = game_running s \<and> won_signal s' = won_signal s"
      and step: "(case shuffle_pass (nat ((grid_size s)\<^sup>2)) rnd i s of
                   Inl e \<Rightarrow> Some (Inl e)
                 | Inr s1 \<Rightarrow> if accepted s1 then Some (Inr s1)
                     else loop rnd (i + nat ((grid_size s)\<^sup>2)) s1) = Some y"
    show "\<forall>s'. y = Inr s' \<longrightarrow> accepted s' \<and> grid_size s' = grid_size s \<and>
               game_running s' = game_running s \<and> won_signal s' = won_signal s"
    proof (cases "shuffle_pass (nat ((grid_size s)\<^sup>2)) rnd i s")
      case (Inl e)
      with step show ?thesis by auto
    next
      case (Inr s1)
      from shuffle_pass_frame[OF Inr]
      have fr: "grid_size s1 = grid_size s" "game_running s1 = game_running s"
        "won_signal s1 = won_signal s" by blast+
      show ?thesis
      proof (cases "accepted s1")
        case True
        with step Inr fr show ?thesis by auto
      next
        case False
        with step Inr have "loop rnd (i + nat ((grid_size s)\<^sup>2)) s1 = Some y" by simp
        from IH[OF this] show ?thesis unfolding fr .
      qed
    qed
  qed
  then show ?thesis by simp
qed

lemma shuffle_setup_frame:
  "shuffle_setup s n = Inr s0 \<Longrightarrow>
     grid_size s0 = n \<and> game_running s0 = game_running s \<and> won_signal s0 = won_signal s \<and>
     current_empty_tile s0 = Some (n - 1, n - 1)"
  by (auto simp: shuffle_setup_def Let_def foldl_make_tile_frame
           split: option.splits qlabel.splits if_splits sum.splits)

lemma check_win_upd [simp]:
  "check_win (s\<lparr>game_running := b\<rparr>) = check_win s"
  "check_win (s\<lparr>counter := c\<rparr>) = check_win s"
  by (simp_all add: check_win_def)

subsection \<open>Running \<^verbatim>\<open>shuffle(2)\<close>\<close>

lemma grid_cells_2: "grid_cells 2 = [(0, 0), (1, 0), (0, 1), (1, 1)]"
  by (simp add: grid_cells_def range_def upto_rec1)

lemma grid_cells_3:
  "grid_cells 3 = [(0, 0), (1, 0), (2, 0), (0, 1), (1, 1), (2, 1), (0, 2), (1, 2), (2, 2)]"
  by (simp add: grid_cells_def range_def upto_rec1)

lemma load_image_init: "load_image Gameboard_init pix0 = Inr loaded"
  by (simp add: load_image_def reset_holders_def Gameboard_init_def pix0_def loaded_def
      grid_cells_3 reset_cell_def itemAtPosition_def addWidget_def heap_of_def fun_eq_iff)

lemma shuffle_setup_2: "shuffle_setup loaded 2 = Inr setup2"
  unfolding loaded_def setup2_def
  apply (simp add: shuffle_setup_def grid_cells_2 make_tile_eq itemAtPosition_def removeItem_def
      dict_get_def Let_def)
  apply (simp add: heap_of_def fun_eq_iff)
  done

lemma shuffle_pass_2:
  "shuffle_pass (Suc (Suc (Suc (Suc 0)))) (\<lambda>i. i) 0 setup2 =
     Inr (game2\<lparr>game_running := False, counter := 4\<rparr>)"
  unfolding setup2_def game2_def
  apply (simp add: random_move_def randint_def move_tile_def dict_get_def dict_pop_def
      dict_set_def removeWidget_def addWidget_def Let_def heap_of_def)
  apply (simp add: fun_eq_iff heap_of_def)
  done

lemma accepted_game2: "accepted (game2\<lparr>game_running := False, counter := 4\<rparr>)"
  by (simp add: accepted_def game2_def check_win_def is_in_right_place_def heap_of_def)

lemma shuffle_loop_2:
  "shuffle_loop (\<lambda>i. i) 0 setup2 = Some (Inr (game2\<lparr>game_running := False, counter := 4\<rparr>))"
proof -
  have n: "nat ((grid_size setup2)\<^sup>2) = Suc (Suc (Suc (Suc 0)))"
    by (simp add: setup2_def)
  show ?thesis
    by (subst shuffle_loop.simps) (simp only: n shuffle_pass_2 sum.case accepted_game2 if_True)
qed

lemma shuffle_2: "shuffle loaded 2 (\<lambda>i. i) = Some (Inr game2)"
  by (simp add: shuffle_def shuffle_setup_2 shuffle_loop_2) (simp add: loaded_def game2_def)

subsection \<open>\<^verbatim>\<open>reset_holders\<close>, \<^verbatim>\<open>set_won_state\<close> and \<^verbatim>\<open>load_image\<close>\<close>

lemma find_remove1_filter:
  "distinct (map f xs) \<Longrightarrow>
   (case find (\<lambda>y. f y = a) xs of None \<Rightarrow> xs | Some x \<Rightarrow> remove1 x xs) = filter (\<lambda>y. f y \<noteq> a) xs"
proof (induction xs)
  case Nil
  then show ?case by simp
next
  case (Cons x xs)
  show ?case
  proof (cases "f x = a")
    case True
    with Cons.prems have "\<forall>y \<in> set xs. f y \<noteq> a" by (auto simp: image_iff)
    then have "filter (\<lambda>y. f y \<noteq> a) xs = xs" by (simp add: filter_id_conv)
    with True show ?thesis by simp
  next
    case False
    from Cons.prems have "distinct (map f xs)" by simp
    note IH = Cons.IH[OF this]
    show ?thesis
    proof (cases "find (\<lambda>y. f y = a) xs")
      case None
      with IH False show ?thesis by simp
    next
      case (Some x2)
      then have "f x2 = a" by (auto simp: find_Some_iff)
      with False have "x \<noteq> x2" by auto
      with IH Some False show ?thesis by simp
    qed
  qed
qed

lemma reset_cell_filter:
  assumes "distinct (map snd (gamegrid s))"
  shows "reset_cell s p = s\<lparr>gamegrid := filter (\<lambda>it. snd it \<noteq> p) (gamegrid s)\<rparr>"
proof -
  have "reset_cell s p =
      s\<lparr>gamegrid := (case find (\<lambda>y. snd y = p) (gamegrid s) of None \<Rightarrow> gamegrid s
                        | Some x \<Rightarrow> remove1 x (gamegrid s))\<rparr>"
    by (simp add: reset_cell_def itemAtPosition_def removeItem_def split: option.splits)
  then show ?thesis by (simp only: find_remove1_filter[OF assms])
qed

lemma foldl_reset_cell:
  "distinct (map snd (gamegrid s)) \<Longrightarrow>
   foldl reset_cell s cs = s\<lparr>gamegrid := filter (\<lambda>it. snd it \<notin> set cs) (gamegrid s)\<rparr>"
proof (induction cs arbitrary: s)
  case Nil
  then show ?case by simp
next
  case (Cons c cs)
  let ?s1 = "s\<lparr>gamegrid := filter (\<lambda>it. snd it \<noteq> c) (gamegrid s)\<rparr>"
  have 1: "reset_cell s c = ?s1" by (rule reset_cell_filter[OF Cons.prems])
  have "distinct (map snd (gamegrid ?s1))" using Cons.prems by (simp add: distinct_map_filter)
  from Cons.IH[OF this] have "foldl reset_cell ?s1 cs =
      ?s1\<lparr>gamegrid := filter (\<lambda>it. snd it \<notin> set cs) (gamegrid ?s1)\<rparr>" .
  moreover have "filter (\<lambda>it. snd it \<notin> set cs) (filter (\<lambda>it. snd it \<noteq> c) (gamegrid s)) =
      filter (\<lambda>it. snd it \<notin> set (c # cs)) (gamegrid s)"
    by (auto intro: filter_cong)
  ultimately show ?case by (simp add: 1)
qed

lemma reset_holders_eq:
  assumes "distinct (map snd (gamegrid s))"
    and "\<forall>w q. (w, q) \<in> set (gamegrid s) \<longrightarrow> in_grid (grid_size s) q"
  shows "reset_holders s =
     s\<lparr>current_empty_tile := Some (grid_size s - 1, grid_size s - 1),
       image_label := (case image_label s of Some Alive \<Rightarrow> None | x \<Rightarrow> x),
       gamegrid := [], tiles := []\<rparr>"
proof -
  have f: "filter (\<lambda>it. snd it \<notin> set (grid_cells (grid_size s))) (gamegrid s) = []"
    using assms(2) by (auto simp: filter_empty_conv set_grid_cells)
  show ?thesis
    using assms(1)
    by (cases "image_label s"; cases "the (image_label s)")
       (simp_all add: reset_holders_def Let_def foldl_reset_cell f)
qed

lemma board_inv_gamegrid:
  assumes "board_inv s"
  shows "distinct (map snd (gamegrid s))"
    and "\<forall>w q. (w, q) \<in> set (gamegrid s) \<longrightarrow> in_grid (grid_size s) q"
proof -
  from assms show "distinct (map snd (gamegrid s))" by (auto simp: board_inv_def)
  from assms obtain e where dm: "dom (map_of (tiles s)) = {p. in_grid (grid_size s) p}"
    and sg: "\<And>w q. ((w, q) \<in> set (gamegrid s)) =
                  (\<exists>r. w = TileW r \<and> map_of (tiles s) q = Some r \<and> q \<noteq> e)"
    by (auto simp: board_inv_def)
  show "\<forall>w q. (w, q) \<in> set (gamegrid s) \<longrightarrow> in_grid (grid_size s) q"
  proof (intro allI impI)
    fix w q assume a: "(w, q) \<in> set (gamegrid s)"
    from a sg[of w q] obtain r where "map_of (tiles s) q = Some r" by blast
    with dm show "in_grid (grid_size s) q" by blast
  qed
qed

lemma idle_inv_gamegrid:
  assumes "idle_inv s"
  shows "distinct (map snd (gamegrid s))"
    and "\<forall>w q. (w, q) \<in> set (gamegrid s) \<longrightarrow> in_grid (grid_size s) q"
  using assms by (auto simp: idle_inv_def in_grid_def split: option.splits)

lemma set_won_state_idle:
  assumes d: "distinct (map snd (gamegrid s))"
    and g: "\<forall>w q. (w, q) \<in> set (gamegrid s) \<longrightarrow> in_grid (grid_size s) q"
    and n: "1 \<le> grid_size s" and img: "image s \<noteq> None"
  shows "\<exists>s'. set_won_state s emit = Inr s' \<and> idle_inv s' \<and> \<not> game_running s' \<and>
           counter s' = 0 \<and> tiles s' = [] \<and> image s' = image s \<and> grid_size s' = grid_size s \<and>
           won_signal s' = (if emit then counter s # won_signal s else won_signal s)"
proof -
  from img obtain px where px: "image s = Some px" by blast
  have rhF: "reset_holders s =
     s\<lparr>current_empty_tile := Some (grid_size s - 1, grid_size s - 1),
       image_label := (case image_label s of Some Alive \<Rightarrow> None | x \<Rightarrow> x),
       gamegrid := [], tiles := []\<rparr>"
    by (rule reset_holders_eq[OF d g])
  let ?s1 = "s\<lparr>won_signal := counter s # won_signal s\<rparr>"
  have "reset_holders ?s1 =
     ?s1\<lparr>current_empty_tile := Some (grid_size ?s1 - 1, grid_size ?s1 - 1),
       image_label := (case image_label ?s1 of Some Alive \<Rightarrow> None | x \<Rightarrow> x),
       gamegrid := [], tiles := []\<rparr>"
    by (rule reset_holders_eq) (use d g in simp_all)
  then have rhT: "reset_holders ?s1 =
     s\<lparr>won_signal := counter s # won_signal s,
       current_empty_tile := Some (grid_size s - 1, grid_size s - 1),
       image_label := (case image_label s of Some Alive \<Rightarrow> None | x \<Rightarrow> x),
       gamegrid := [], tiles := []\<rparr>"
    by simp
  show ?thesis
  proof (cases emit)
    case True
    then show ?thesis using n px
      by (simp add: set_won_state_def Let_def rhT idle_inv_def addWidget_def)
  next
    case False
    then show ?thesis using n px
      by (simp add: set_won_state_def Let_def rhF idle_inv_def addWidget_def)
  qed
qed

lemma load_image_idle:
  assumes "idle_inv s" "load_image s pix = Inr s'"
  shows "idle_inv s' \<and> image s' \<noteq> None \<and> game_running s' = game_running s"
proof -
  note rh = reset_holders_eq[of s, OF idle_inv_gamegrid[OF assms(1)]]
  from assms show ?thesis
    by (auto simp: load_image_def Let_def rh idle_inv_def addWidget_def split: if_splits)
qed

subsection \<open>\<^verbatim>\<open>shuffle\<close> establishes and keeps the board invariant\<close>

lemma board_inv_upd [simp]:
  "board_inv (s\<lparr>game_running := b\<rparr>) = board_inv s"
  "board_inv (s\<lparr>counter := c\<rparr>) = board_inv s"
  by (simp_all add: board_inv_def)

lemma removeItem_itemAtPosition:
  "distinct (map snd g) \<Longrightarrow> removeItem g (itemAtPosition g p) = filter (\<lambda>it. snd it \<noteq> p) g"
  unfolding removeItem_def itemAtPosition_def by (rule find_remove1_filter)

lemma shuffle_setup_board:
  assumes idle: "idle_inv s" and su: "shuffle_setup s n = Inr s0"
  shows "board_inv s0 \<and> check_win s0 \<and>
         (\<forall>p r. map_of (tiles s0) p = Some r \<longrightarrow> location (heap s0 r) = p \<and> tile_id (heap s0 r) = p)"
proof -
  let ?c = "(n - 1, n - 1)"
  from su have lab: "image_label s = Some Alive" and img: "image s \<noteq> None" and n0: "n \<noteq> 0"
    by (auto simp: shuffle_setup_def Let_def split: option.splits qlabel.splits if_splits)
  from idle img have t: "tiles s = []" and g: "gamegrid s = [(LabelW, (0, 0))]"
    by (auto simp: idle_inv_def)
  define s3 where "s3 = s\<lparr>grid_size := n, gamegrid := [], image_label := Some Deleted\<rparr>"
  define s4 where "s4 = foldl make_tile s3 (grid_cells n)"
  have fr4: "grid_size s4 = n" "image s4 = image s"
    unfolding s4_def by (simp_all add: foldl_make_tile_frame s3_def)
  have "setup_inv {} s3" by (simp add: setup_inv_def s3_def t)
  from foldl_make_tile_inv[OF this distinct_grid_cells, of n]
  have si: "setup_inv {p. in_grid n p} s4" by (simp add: s4_def set_grid_cells)
  then have dk: "distinct (map fst (tiles s4))" and dm: "dom (map_of (tiles s4)) = {p. in_grid n p}"
    and loc: "\<And>p r. map_of (tiles s4) p = Some r \<Longrightarrow>
          location (heap s4 r) = p \<and> tile_id (heap s4 r) = p"
    and dg: "distinct (map snd (gamegrid s4))"
    and sg: "\<And>w q. ((w, q) \<in> set (gamegrid s4)) = (\<exists>r. w = TileW r \<and> map_of (tiles s4) q = Some r)"
    by (auto simp: setup_inv_def)
  have su': "shuffle_setup s n =
      (case dict_get (tiles s4) ?c of Inl e \<Rightarrow> Inl e
       | Inr _ \<Rightarrow> Inr (s4\<lparr>gamegrid := removeItem (gamegrid s4) (itemAtPosition (gamegrid s4) ?c),
                          current_empty_tile := Some ?c\<rparr>))"
    using lab img n0 g
    by (auto simp: shuffle_setup_def Let_def itemAtPosition_def removeItem_def
        foldl_make_tile_frame s4_def s3_def split: sum.splits)
  from su su' obtain rc where rc: "map_of (tiles s4) ?c = Some rc"
    by (auto simp: dict_get_def split: option.splits)
  with su su' have s0: "s0 = s4\<lparr>gamegrid := filter (\<lambda>it. snd it \<noteq> ?c) (gamegrid s4),
                          current_empty_tile := Some ?c\<rparr>"
    by (simp add: dict_get_def removeItem_itemAtPosition[OF dg])
  from rc dm have cg: "in_grid n ?c" by blast
  then have n1: "1 \<le> n" by (simp add: in_grid_def)
  have sg0: "\<forall>w q. ((w, q) \<in> set (gamegrid s0)) =
      (\<exists>r. w = TileW r \<and> map_of (tiles s0) q = Some r \<and> q \<noteq> ?c)"
    using sg by (auto simp: s0)
  have "board_inv s0"
    unfolding board_inv_def
    using n1 img cg dk dm loc dg sg0
    by (simp add: s0 fr4 distinct_map_filter)
  moreover have "check_win s0"
    using loc dk by (simp add: check_win_map_of s0)
  moreover have "\<forall>p r. map_of (tiles s0) p = Some r \<longrightarrow>
      location (heap s0 r) = p \<and> tile_id (heap s0 r) = p"
    using loc by (simp add: s0)
  ultimately show ?thesis by blast
qed

lemma board_inv_empty:
  assumes "board_inv s"
  obtains e where "current_empty_tile s = Some e" "in_grid (grid_size s) e"
  using assms by (auto simp: board_inv_def)

lemma board_inv_dom:
  "board_inv s \<Longrightarrow> (map_of (tiles s) p \<noteq> None) = in_grid (grid_size s) p"
  by (auto simp: board_inv_def)

lemma moveable_tile_iff:
  assumes "current_empty_tile s = Some e" "in_grid (grid_size s) e" "in_grid (grid_size s) p"
  shows "moveable_tile s p \<longleftrightarrow> adjacent p e"
  using assms mem_neighbors[of s p e] by (simp add: moveable_tile_def adjacent_sym)

lemma random_move_board:
  assumes inv: "board_inv s" and rm: "random_move s r = Inr s'"
  shows "board_inv s' \<and> legal_move s s'"
proof -
  from inv obtain e where e: "current_empty_tile s = Some e" and eg: "in_grid (grid_size s) e"
    by (rule board_inv_empty)
  let ?nb = "get_neightbor_tiles s e"
  from rm e obtain i t where i: "0 \<le> i" "i < int (length ?nb)"
    and t: "dict_get (tiles s) (?nb ! nat i) = Inr t"
    and mv: "move_tile s t ''normal'' = Inr s'"
    by (auto simp: random_move_def Let_def split: sum.splits if_splits)
  define p where "p = ?nb ! nat i"
  from i have "p \<in> set ?nb" unfolding p_def by (intro nth_mem) simp
  with mem_neighbors[OF eg] have pg: "in_grid (grid_size s) p" and adj: "adjacent p e" by auto
  from t have mp: "map_of (tiles s) p = Some t"
    by (auto simp: dict_get_def p_def split: option.splits)
  from adj have pe: "p \<noteq> e" by (rule adjacent_neq)
  from board_inv_move[OF inv e mp pe, of "''normal''"] mv have "board_inv s'" by auto
  moreover have "moveable_tile s p" using moveable_tile_iff[OF e eg pg] adj by simp
  then have "legal_move s s'" using e mp adj mv by (intro legal_move.intros)
  ultimately show ?thesis by simp
qed

lemma neighbors_nonempty:
  "in_grid (grid_size s) e \<Longrightarrow> 2 \<le> grid_size s \<Longrightarrow> get_neightbor_tiles s e \<noteq> []"
  by (cases e) (auto simp: in_grid_def)

lemma random_move_total:
  assumes inv: "board_inv s" and n: "2 \<le> grid_size s"
  shows "\<exists>s'. random_move s r = Inr s'"
proof -
  from inv obtain e where e: "current_empty_tile s = Some e" and eg: "in_grid (grid_size s) e"
    by (rule board_inv_empty)
  let ?nb = "get_neightbor_tiles s e"
  have ne: "?nb \<noteq> []" by (rule neighbors_nonempty[OF eg n])
  define k where "k = r mod length ?nb"
  from ne have k: "k < length ?nb" by (simp add: k_def)
  have ri: "randint 0 (int (length ?nb) - 1) r = Inr (int k)"
    using ne by (simp add: randint_def k_def)
  define p where "p = ?nb ! k"
  from k have "p \<in> set ?nb" unfolding p_def by (rule nth_mem)
  with mem_neighbors[OF eg] have pg: "in_grid (grid_size s) p" and adj: "adjacent p e" by auto
  from board_inv_dom[OF inv, of p] pg obtain t where mp: "map_of (tiles s) p = Some t" by auto
  from adj have pe: "p \<noteq> e" by (rule adjacent_neq)
  from board_inv_move[OF inv e mp pe, of "''normal''"]
  obtain s' where "move_tile s t ''normal'' = Inr s'" by blast
  then have "random_move s r = Inr s'"
    using e ri k mp by (simp add: random_move_def Let_def dict_get_def p_def)
  then show ?thesis ..
qed

lemma shuffle_pass_board:
  "board_inv s \<Longrightarrow> shuffle_pass k rnd i s = Inr s' \<Longrightarrow> board_inv s' \<and> legal_move\<^sup>*\<^sup>* s s'"
proof (induction k arbitrary: i s)
  case 0
  then show ?case by simp
next
  case (Suc k)
  from Suc.prems(2) obtain s1 where 1: "random_move s (rnd i) = Inr s1"
    and 2: "shuffle_pass k rnd (Suc i) s1 = Inr s'"
    by (auto split: sum.splits)
  from random_move_board[OF Suc.prems(1) 1] have b1: "board_inv s1" and l1: "legal_move s s1"
    by simp_all
  from Suc.IH[OF b1 2] have "board_inv s'" "legal_move\<^sup>*\<^sup>* s1 s'" by simp_all
  with l1 show ?case by (simp add: converse_rtranclp_into_rtranclp)
qed

lemma shuffle_pass_total:
  "board_inv s \<Longrightarrow> 2 \<le> grid_size s \<Longrightarrow> \<exists>s'. shuffle_pass k rnd i s = Inr s'"
proof (induction k arbitrary: i s)
  case 0
  then show ?case by simp
next
  case (Suc k)
  from random_move_total[OF Suc.prems] obtain s1 where 1: "random_move s (rnd i) = Inr s1"
    by blast
  from random_move_board[OF Suc.prems(1) 1] have b1: "board_inv s1" by simp
  from random_move_frame[OF 1] Suc.prems(2) have "2 \<le> grid_size s1" by simp
  from Suc.IH[OF b1 this] obtain s' where "shuffle_pass k rnd (Suc i) s1 = Inr s'" by blast
  with 1 show ?case by simp
qed

lemma shuffle_loop_total:
  assumes run: "shuffle_loop rnd i s = Some y" and inv: "board_inv s" and n: "2 \<le> grid_size s"
  shows "\<exists>s'. y = Inr s' \<and> board_inv s' \<and> legal_move\<^sup>*\<^sup>* s s'"
proof -
  have "board_inv s \<and> 2 \<le> grid_size s \<longrightarrow> (\<exists>s'. y = Inr s' \<and> board_inv s' \<and> legal_move\<^sup>*\<^sup>* s s')"
  proof (rule shuffle_loop.raw_induct[where
        P = "\<lambda>rnd i s y. board_inv s \<and> 2 \<le> grid_size s \<longrightarrow>
               (\<exists>s'. y = Inr s' \<and> board_inv s' \<and> legal_move\<^sup>*\<^sup>* s s')",
        OF _ run])
    fix loop :: "(nat \<Rightarrow> nat) \<Rightarrow> nat \<Rightarrow> Gameboard \<Rightarrow> (error + Gameboard) option"
      and rnd i s y
    assume IH: "\<And>rnd i s y. loop rnd i s = Some y \<Longrightarrow> board_inv s \<and> 2 \<le> grid_size s \<longrightarrow>
               (\<exists>s'. y = Inr s' \<and> board_inv s' \<and> legal_move\<^sup>*\<^sup>* s s')"
      and step: "(case shuffle_pass (nat ((grid_size s)\<^sup>2)) rnd i s of
                   Inl e \<Rightarrow> Some (Inl e)
                 | Inr s1 \<Rightarrow> if accepted s1 then Some (Inr s1)
                     else loop rnd (i + nat ((grid_size s)\<^sup>2)) s1) = Some y"
    show "board_inv s \<and> 2 \<le> grid_size s \<longrightarrow>
               (\<exists>s'. y = Inr s' \<and> board_inv s' \<and> legal_move\<^sup>*\<^sup>* s s')"
    proof
      assume a: "board_inv s \<and> 2 \<le> grid_size s"
      then have b: "board_inv s" and n: "2 \<le> grid_size s" by simp_all
      from shuffle_pass_total[OF b n] obtain s1
        where p: "shuffle_pass (nat ((grid_size s)\<^sup>2)) rnd i s = Inr s1" by blast
      from shuffle_pass_board[OF b p] have b1: "board_inv s1" and l1: "legal_move\<^sup>*\<^sup>* s s1"
        by simp_all
      from shuffle_pass_frame[OF p] n have n1: "2 \<le> grid_size s1" by simp
      show "\<exists>s'. y = Inr s' \<and> board_inv s' \<and> legal_move\<^sup>*\<^sup>* s s'"
      proof (cases "accepted s1")
        case True
        with step p have "y = Inr s1" by simp
        with b1 l1 show ?thesis by blast
      next
        case False
        with step p have "loop rnd (i + nat ((grid_size s)\<^sup>2)) s1 = Some y" by simp
        from IH[OF this] b1 n1 obtain s' where s': "y = Inr s'" "board_inv s'" "legal_move\<^sup>*\<^sup>* s1 s'"
          by blast
        from l1 s'(3) have "legal_move\<^sup>*\<^sup>* s s'" by (rule rtranclp_trans)
        with s'(1,2) show ?thesis by blast
      qed
    qed
  qed
  with inv n show ?thesis by simp
qed

lemma shuffle_loop_board:
  assumes run: "shuffle_loop rnd i s = Some (Inr s')" and inv: "board_inv s"
  shows "board_inv s' \<and> legal_move\<^sup>*\<^sup>* s s'"
proof -
  have "board_inv s \<longrightarrow> (\<forall>t. (Inr s' :: error + Gameboard) = Inr t \<longrightarrow> board_inv t \<and> legal_move\<^sup>*\<^sup>* s t)"
  proof (rule shuffle_loop.raw_induct[where
        P = "\<lambda>rnd i s y. board_inv s \<longrightarrow>
               (\<forall>t. y = Inr t \<longrightarrow> board_inv t \<and> legal_move\<^sup>*\<^sup>* s t)",
        OF _ run])
    fix loop :: "(nat \<Rightarrow> nat) \<Rightarrow> nat \<Rightarrow> Gameboard \<Rightarrow> (error + Gameboard) option"
      and rnd i s y
    assume IH: "\<And>rnd i s y. loop rnd i s = Some y \<Longrightarrow> board_inv s \<longrightarrow>
               (\<forall>t. y = Inr t \<longrightarrow> board_inv t \<and> legal_move\<^sup>*\<^sup>* s t)"
      and step: "(case shuffle_pass (nat ((grid_size s)\<^sup>2)) rnd i s of
                   Inl e \<Rightarrow> Some (Inl e)
                 | Inr s1 \<Rightarrow> if accepted s1 then Some (Inr s1)
                     else loop rnd (i + nat ((grid_size s)\<^sup>2)) s1) = Some y"
    show "board_inv s \<longrightarrow> (\<forall>t. y = Inr t \<longrightarrow> board_inv t \<and> legal_move\<^sup>*\<^sup>* s t)"
    proof (intro impI allI)
      fix t assume b: "board_inv s" and y: "y = Inr t"
      show "board_inv t \<and> legal_move\<^sup>*\<^sup>* s t"
      proof (cases "shuffle_pass (nat ((grid_size s)\<^sup>2)) rnd i s")
        case (Inl e)
        with step y show ?thesis by simp
      next
        case (Inr s1)
        from shuffle_pass_board[OF b Inr] have b1: "board_inv s1" and l1: "legal_move\<^sup>*\<^sup>* s s1"
          by simp_all
        show ?thesis
        proof (cases "accepted s1")
          case True
          with step Inr y have "t = s1" by simp
          with b1 l1 show ?thesis by simp
        next
          case False
          with step Inr have "loop rnd (i + nat ((grid_size s)\<^sup>2)) s1 = Some y" by simp
          from IH[OF this] b1 y have t: "board_inv t" "legal_move\<^sup>*\<^sup>* s1 t" by blast+
          from l1 t(2) have "legal_move\<^sup>*\<^sup>* s t" by (rule rtranclp_trans)
          with t(1) show ?thesis by simp
        qed
      qed
    qed
  qed
  with inv show ?thesis by simp
qed

subsection \<open>The invariant of reachable boards\<close>

lemma board_inv_visible:
  assumes "board_inv s" "current_empty_tile s = Some e" "(TileW t, p) \<in> set (gamegrid s)"
  shows "map_of (tiles s) p = Some t \<and> p \<noteq> e \<and> location (heap s t) = p \<and>
         in_grid (grid_size s) p"
proof -
  from assms(1,2) have
    sg: "\<And>w q. ((w, q) \<in> set (gamegrid s)) =
                  (\<exists>r. w = TileW r \<and> map_of (tiles s) q = Some r \<and> q \<noteq> e)"
    and loc: "\<And>p r. map_of (tiles s) p = Some r \<Longrightarrow> location (heap s r) = p"
    by (auto simp: board_inv_def)
  from sg[of "TileW t" p] assms(3) have 1: "map_of (tiles s) p = Some t" "p \<noteq> e" by auto
  with loc[OF 1(1)] board_inv_dom[OF assms(1), of p] show ?thesis by simp
qed

lemma shuffle_board:
  assumes idle: "idle_inv s" and nr: "\<not> game_running s" and sh: "shuffle s n rnd = Some (Inr s')"
  shows "\<exists>s0 s1. shuffle_setup s n = Inr s0 \<and> board_inv s0 \<and> check_win s0 \<and>
           (\<forall>p r. map_of (tiles s0) p = Some r \<longrightarrow>
               location (heap s0 r) = p \<and> tile_id (heap s0 r) = p) \<and>
           legal_move\<^sup>*\<^sup>* s0 s1 \<and> board_inv s1 \<and> s' = s1\<lparr>game_running := True, counter := 0\<rparr>"
proof -
  from nr sh obtain s0 s1 where 0: "shuffle_setup s n = Inr s0"
    and 1: "shuffle_loop rnd 0 s0 = Some (Inr s1)"
    and 2: "s' = s1\<lparr>game_running := True, counter := 0\<rparr>"
    by (auto simp: shuffle_def split: sum.splits option.splits)
  note sb = shuffle_setup_board[OF idle 0]
  then have b0: "board_inv s0" by simp
  from shuffle_loop_board[OF 1 b0] sb 0 2 show ?thesis by blast
qed

lemma reachable_inv: "reachable s \<Longrightarrow> gameboard_inv s"
proof (induction rule: reachable.induct)
  case init
  show ?case by (simp add: gameboard_inv_def idle_inv_def Gameboard_init_def)
next
  case (load s pix s')
  then have "idle_inv s" by (simp add: gameboard_inv_def)
  from load_image_idle[OF this load.hyps(3)] load.hyps(2) show ?case by (simp add: gameboard_inv_def)
next
  case (shuffle s n rnd s')
  show ?case
  proof (cases "game_running s")
    case True
    with shuffle.IH have b: "board_inv s" by (simp add: gameboard_inv_def)
    then have n: "1 \<le> grid_size s" and img: "image s \<noteq> None" by (auto simp: board_inv_def)
    from set_won_state_idle[where emit = False, OF board_inv_gamegrid[OF b] n img]
    obtain s'' where "set_won_state s False = Inr s''" "idle_inv s''" "\<not> game_running s''"
      by blast
    moreover from True shuffle.hyps(2) have "set_won_state s False = Inr s'"
      by (simp add: shuffle_def)
    ultimately show ?thesis by (simp add: gameboard_inv_def)
  next
    case False
    with shuffle.IH have "idle_inv s" by (simp add: gameboard_inv_def)
    from shuffle_board[OF this False shuffle.hyps(2)] show ?thesis by (auto simp: gameboard_inv_def)
  qed
next
  case (click s t p s')
  show ?case
  proof (cases "game_running s")
    case False
    with click.hyps(3) have "s' = s" by (simp add: tile_clicked_def)
    with click.IH show ?thesis by simp
  next
    case True
    with click.IH have b: "board_inv s" by (simp add: gameboard_inv_def)
    from b obtain e where e: "current_empty_tile s = Some e" by (rule board_inv_empty)
    from board_inv_visible[OF b e click.hyps(2)]
    have mp: "map_of (tiles s) p = Some t" and pe: "p \<noteq> e" and lt: "location (heap s t) = p"
      by simp_all
    show ?thesis
    proof (cases "moveable_tile s p")
      case False
      with click.hyps(3) True lt have "s' = s" by (simp add: tile_clicked_def)
      with click.IH show ?thesis by simp
    next
      case mv: True
      from board_inv_move[OF b e mp pe, of "''fade''"] True
      obtain s1 where m1: "move_tile s t ''fade'' = Inr s1" and b1: "board_inv s1"
        and r1: "game_running s1" by auto
      show ?thesis
      proof (cases "check_win s1")
        case False
        with click.hyps(3) True lt mv m1 have "s' = s1" by (simp add: tile_clicked_def)
        with b1 r1 show ?thesis by (simp add: gameboard_inv_def)
      next
        case cw: True
        from b1 have n: "1 \<le> grid_size s1" and img: "image s1 \<noteq> None"
          by (auto simp: board_inv_def)
        from set_won_state_idle[where emit = True, OF board_inv_gamegrid[OF b1] n img]
        obtain s'' where "set_won_state s1 True = Inr s''" "idle_inv s''" "\<not> game_running s''"
          by blast
        moreover from click.hyps(3) True lt mv m1 cw have "set_won_state s1 True = Inr s'"
          by (simp add: tile_clicked_def)
        ultimately show ?thesis by (simp add: gameboard_inv_def)
      qed
    qed
  qed
qed

subsection \<open>Playing the 2 x 2 game to the end\<close>

lemmas eval_defs = tile_clicked_def moveable_tile_def move_tile_def dict_get_def dict_pop_def
  dict_set_def removeWidget_def addWidget_def check_win_def is_in_right_place_def Let_def

lemma click_game2: "tile_clicked game2 2 = Inr game2a"
  unfolding game2_def game2a_def
  apply (simp add: eval_defs heap_of_def)
  apply (simp add: fun_eq_iff heap_of_def)
  done

lemma click_game2a: "tile_clicked game2a 1 = Inr game2b"
  unfolding game2a_def game2b_def
  apply (simp add: eval_defs heap_of_def)
  apply (simp add: fun_eq_iff heap_of_def)
  done

lemma click_game2b: "tile_clicked game2b 0 = Inr almost_won"
  unfolding game2b_def almost_won_def
  apply (simp add: eval_defs heap_of_def)
  apply (simp add: fun_eq_iff heap_of_def)
  done

lemma click_almost_won: "tile_clicked almost_won 2 = Inr won2"
  unfolding almost_won_def won2_def
  apply (simp add: eval_defs heap_of_def set_won_state_def reset_holders_def grid_cells_2
      reset_cell_def itemAtPosition_def removeItem_def)
  apply (simp add: fun_eq_iff heap_of_def)
  done

lemma reachable_loaded: "reachable loaded"
  by (rule reachable.load[OF reachable.init _ load_image_init]) (simp add: Gameboard_init_def)

lemma reachable_game2: "reachable game2"
  by (rule reachable.shuffle[OF reachable_loaded shuffle_2])

lemma reachable_game2a: "reachable game2a"
  by (rule reachable.click[OF reachable_game2 _ click_game2, of "(1, 0)"]) (simp add: game2_def)

lemma reachable_game2b: "reachable game2b"
  by (rule reachable.click[OF reachable_game2a _ click_game2a, of "(0, 0)"]) (simp add: game2a_def)

lemma reachable_almost_won: "reachable almost_won"
  by (rule reachable.click[OF reachable_game2b _ click_game2b, of "(0, 1)"]) (simp add: game2b_def)

subsection \<open>Consequences of the invariant\<close>


lemma reachable_board: "reachable s \<Longrightarrow> game_running s \<Longrightarrow> board_inv s"
  by (drule reachable_inv) (simp add: gameboard_inv_def)

lemma set_get_moveable_tiles:
  "set (get_moveable_tiles s) = {p. in_grid (grid_size s) p \<and> moveable_tile s p}"
  by (auto simp: get_moveable_tiles_def set_range in_grid_def)

lemma reachable_empty_in_grid:
  assumes "reachable s" "current_empty_tile s = Some e"
  shows "in_grid (grid_size s) e"
proof (cases "game_running s")
  case True
  with assms(1) have "board_inv s" by (rule reachable_board)
  with assms(2) show ?thesis by (auto simp: board_inv_def)
next
  case False
  with reachable_inv[OF assms(1)] have "idle_inv s" by (simp add: gameboard_inv_def)
  with assms(2) show ?thesis by (auto simp: idle_inv_def in_grid_def)
qed

lemma move_almost_won: "move_tile almost_won 2 ''fade'' = Inr solved2"
  unfolding almost_won_def solved2_def
  apply (simp add: eval_defs heap_of_def)
  apply (simp add: fun_eq_iff heap_of_def)
  done

lemma check_win_solved2: "check_win solved2"
  by (simp add: solved2_def check_win_def is_in_right_place_def heap_of_def)

lemma board_inv_loc:
  "board_inv s \<Longrightarrow> map_of (tiles s) p = Some r \<Longrightarrow> location (heap s r) = p"
  unfolding board_inv_def by blast


lemma move_twice:
  assumes b: "board_inv s" and e: "current_empty_tile s = Some e"
    and mp: "map_of (tiles s) p = Some t" and pe: "p \<noteq> e"
  shows "\<exists>s1 s2. move_tile s t mode = Inr s1 \<and> board_inv s1 \<and> map_of (tiles s1) e = Some t \<and>
           location (heap s1 t) = e \<and> current_empty_tile s1 = Some p \<and>
           grid_size s1 = grid_size s \<and>
           move_tile s1 t mode' = Inr s2 \<and> board_inv s2 \<and> map_of (tiles s2) = map_of (tiles s) \<and>
           heap s2 = heap s \<and> current_empty_tile s2 = Some e \<and> grid_size s2 = grid_size s \<and>
           counter s2 = counter s + 2"
proof -
  from board_inv_move[OF b e mp pe, of mode] obtain s1 h where
    1: "move_tile s t mode = Inr s1" and h: "map_of (tiles s) e = Some h" and ht: "h \<noteq> t"
    and b1: "board_inv s1" and e1: "current_empty_tile s1 = Some p"
    and c1: "counter s1 = counter s + 1"
    and m1: "map_of (tiles s1) = (map_of (tiles s))(p \<mapsto> h, e \<mapsto> t)"
    and h1: "heap s1 = (heap s)(h := (heap s h)\<lparr>location := p\<rparr>, t := (heap s t)\<lparr>location := e\<rparr>)"
    and g1: "grid_size s1 = grid_size s"
    by blast
  have mt1: "map_of (tiles s1) e = Some t" by (simp add: m1)
  have mh1: "map_of (tiles s1) p = Some h" using pe by (simp add: m1)
  have ep: "e \<noteq> p" using pe by simp
  from board_inv_move[OF b1 e1 mt1 ep, of mode'] mh1 obtain s2 where
    2: "move_tile s1 t mode' = Inr s2" and b2: "board_inv s2"
    and e2: "current_empty_tile s2 = Some e" and c2: "counter s2 = counter s1 + 1"
    and m2: "map_of (tiles s2) = (map_of (tiles s1))(e \<mapsto> h, p \<mapsto> t)"
    and h2: "heap s2 = (heap s1)(h := (heap s1 h)\<lparr>location := e\<rparr>, t := (heap s1 t)\<lparr>location := p\<rparr>)"
    and g2: "grid_size s2 = grid_size s1"
    by auto
  from board_inv_loc[OF b h] board_inv_loc[OF b mp]
  have lh: "location (heap s h) = e" and lt: "location (heap s t) = p" by simp_all
  have m: "map_of (tiles s2) = map_of (tiles s)"
    unfolding m2 m1 using h mp by (auto simp: fun_eq_iff)
  have hp: "heap s2 = heap s"
    unfolding h2 h1 using ht lh lt by (auto simp: fun_eq_iff)
  have l1: "location (heap s1 t) = e" by (simp add: h1)
  from 1 b1 mt1 l1 e1 g1 2 b2 m hp e2 g2 c1 c2 show ?thesis by simp
qed


lemma click_far_game2: "tile_clicked game2 1 = Inr game2"
  by (simp add: game2_def eval_defs heap_of_def)

subsection \<open>Undoing a walk of legal moves\<close>

lemma same_layout_refl: "same_layout a a"
  by (simp add: same_layout_def)

lemma same_layout_sym: "same_layout a b \<Longrightarrow> same_layout b a"
  by (simp add: same_layout_def)

lemma same_layout_trans: "same_layout a b \<Longrightarrow> same_layout b c \<Longrightarrow> same_layout a c"
  by (simp add: same_layout_def)

lemma moveable_tile_layout:
  "grid_size a = grid_size b \<Longrightarrow> current_empty_tile a = current_empty_tile b \<Longrightarrow>
   moveable_tile a p = moveable_tile b p"
  by (cases p) (simp add: moveable_tile_def split: option.splits)

lemma check_win_layout:
  assumes "board_inv a" "board_inv b" "same_layout a b"
  shows "check_win a = check_win b"
proof -
  from assms(1,2) have "distinct (map fst (tiles a))" "distinct (map fst (tiles b))"
    by (auto simp: board_inv_def)
  from check_win_map_of[OF this(1)] check_win_map_of[OF this(2)] assms(3)
  show ?thesis by (simp add: same_layout_def)
qed

lemma legal_move_board:
  assumes "board_inv s" "legal_move s s'"
  shows "board_inv s'"
  using assms(2)
proof (cases rule: legal_move.cases)
  case (1 e p t mode)
  from 1(3) have "p \<noteq> e" by (rule adjacent_neq)
  from board_inv_move[OF assms(1) 1(1,2) this, of mode] 1(5) show ?thesis by auto
qed

lemma legal_move_layout:
  assumes a: "board_inv a" and b: "board_inv b" and l: "same_layout a b"
    and mv: "legal_move a a'"
  shows "\<exists>b'. legal_move b b' \<and> same_layout a' b'"
  using mv
proof (cases rule: legal_move.cases)
  case (1 e p t mode)
  from 1(3) have pe: "p \<noteq> e" by (rule adjacent_neq)
  from l have g: "grid_size a = grid_size b" and eb: "current_empty_tile b = Some e"
    and mb: "map_of (tiles b) = map_of (tiles a)" and hb: "heap b = heap a"
    using 1(1) by (simp_all add: same_layout_def)
  from mb 1(2) have mpb: "map_of (tiles b) p = Some t" by simp
  from board_inv_move[OF a 1(1,2) pe, of mode] 1(5) obtain h where
    ha: "map_of (tiles a) e = Some h" and ea': "current_empty_tile a' = Some p"
    and ma': "map_of (tiles a') = (map_of (tiles a))(p \<mapsto> h, e \<mapsto> t)"
    and hpa': "heap a' = (heap a)(h := (heap a h)\<lparr>location := p\<rparr>, t := (heap a t)\<lparr>location := e\<rparr>)"
    and ga': "grid_size a' = grid_size a"
    by auto
  from board_inv_move[OF b eb mpb pe, of mode] obtain b' h' where
    mvb: "move_tile b t mode = Inr b'" and hb': "map_of (tiles b) e = Some h'"
    and eb': "current_empty_tile b' = Some p"
    and mb': "map_of (tiles b') = (map_of (tiles b))(p \<mapsto> h', e \<mapsto> t)"
    and hpb': "heap b' = (heap b)(h' := (heap b h')\<lparr>location := p\<rparr>, t := (heap b t)\<lparr>location := e\<rparr>)"
    and gb': "grid_size b' = grid_size b"
    by blast
  from ha hb' mb have hh: "h' = h" by simp
  have "moveable_tile b p" using moveable_tile_layout[OF g, of p] 1(1,4) eb by simp
  then have "legal_move b b'" using eb mpb 1(3) mvb by (intro legal_move.intros)
  moreover have "same_layout a' b'"
    unfolding same_layout_def using ea' eb' ma' mb' hpa' hpb' ga' gb' g mb hb hh by simp
  ultimately show ?thesis by blast
qed

lemma legal_move_back:
  assumes b: "board_inv s" and mv: "legal_move s s1"
  shows "\<exists>s2. legal_move s1 s2 \<and> same_layout s2 s"
  using mv
proof (cases rule: legal_move.cases)
  case (1 e p t mode)
  from 1(3) have pe: "p \<noteq> e" by (rule adjacent_neq)
  from b 1(1) have eg: "in_grid (grid_size s) e" by (auto simp: board_inv_def)
  from board_inv_dom[OF b, of p] 1(2) have pg: "in_grid (grid_size s) p" by simp
  from move_twice[OF b 1(1,2) pe, of mode mode] 1(5) obtain s2 where
    *: "map_of (tiles s1) e = Some t" "current_empty_tile s1 = Some p"
       "grid_size s1 = grid_size s" "move_tile s1 t mode = Inr s2"
       "map_of (tiles s2) = map_of (tiles s)" "heap s2 = heap s"
       "current_empty_tile s2 = Some e" "grid_size s2 = grid_size s"
    by auto
  have "moveable_tile s1 e"
    using moveable_tile_iff[of s1 p e] * eg pg 1(3) by (simp add: adjacent_sym)
  moreover have "adjacent e p" using 1(3) by (simp add: adjacent_sym)
  ultimately have "legal_move s1 s2" using * by (intro legal_move.intros)
  moreover have "same_layout s2 s" using * 1(1) by (simp add: same_layout_def)
  ultimately show ?thesis by blast
qed

lemma path_layout:
  assumes "legal_move\<^sup>*\<^sup>* a a2" and "board_inv a" and "board_inv b" and "same_layout a b"
  shows "\<exists>b2. legal_move\<^sup>*\<^sup>* b b2 \<and> same_layout a2 b2 \<and> board_inv a2 \<and> board_inv b2"
  using assms(1)
proof (induction rule: rtranclp_induct)
  case base
  from assms(2,3,4) show ?case by blast
next
  case (step y z)
  from step.IH obtain y' where y': "legal_move\<^sup>*\<^sup>* b y'" "same_layout y y'" "board_inv y"
    "board_inv y'" by blast
  from legal_move_layout[OF y'(3,4,2) step.hyps(2)] obtain z' where
    z': "legal_move y' z'" "same_layout z z'" by blast
  from legal_move_board[OF y'(3) step.hyps(2)] legal_move_board[OF y'(4) z'(1)]
  have "board_inv z" "board_inv z'" .
  moreover from y'(1) z'(1) have "legal_move\<^sup>*\<^sup>* b z'" by (rule rtranclp.rtrancl_into_rtrancl)
  ultimately show ?case using z'(2) by blast
qed

lemma path_back:
  assumes "legal_move\<^sup>*\<^sup>* s s1" and "board_inv s"
  shows "\<exists>s2. legal_move\<^sup>*\<^sup>* s1 s2 \<and> same_layout s2 s \<and> board_inv s1 \<and> board_inv s2"
  using assms(1)
proof (induction rule: rtranclp_induct)
  case base
  from assms(2) same_layout_refl show ?case by blast
next
  case (step y z)
  from step.IH obtain y2 where y2: "legal_move\<^sup>*\<^sup>* y y2" "same_layout y2 s" "board_inv y"
    "board_inv y2" by blast
  from legal_move_back[OF y2(3) step.hyps(2)] obtain y' where
    y': "legal_move z y'" "same_layout y' y" by blast
  have bz: "board_inv z" by (rule legal_move_board[OF y2(3) step.hyps(2)])
  have by': "board_inv y'" by (rule legal_move_board[OF bz y'(1)])
  from path_layout[OF y2(1,3) by' same_layout_sym[OF y'(2)]] obtain b2 where
    b2: "legal_move\<^sup>*\<^sup>* y' b2" "same_layout y2 b2" "board_inv b2" by blast
  from y'(1) b2(1) have "legal_move\<^sup>*\<^sup>* z b2" by (rule converse_rtranclp_into_rtranclp)
  moreover from same_layout_sym[OF b2(2)] y2(2) have "same_layout b2 s"
    by (rule same_layout_trans)
  ultimately show ?case using bz b2(3) by blast
qed

subsection \<open>A walk for which \<^verbatim>\<open>shuffle\<close> returns\<close>

lemma shuffle_setup_total:
  assumes idle: "idle_inv s" and img: "image s \<noteq> None" and n1: "1 \<le> n"
  shows "\<exists>s0. shuffle_setup s n = Inr s0"
proof -
  let ?c = "(n - 1, n - 1)"
  from idle img have lab: "image_label s = Some Alive" and t: "tiles s = []"
    and g: "gamegrid s = [(LabelW, (0, 0))]"
    by (auto simp: idle_inv_def)
  from n1 have n0: "n \<noteq> 0" by simp
  define s3 where "s3 = s\<lparr>grid_size := n, gamegrid := [], image_label := Some Deleted\<rparr>"
  define s4 where "s4 = foldl make_tile s3 (grid_cells n)"
  have "setup_inv {} s3" by (simp add: setup_inv_def s3_def t)
  from foldl_make_tile_inv[OF this distinct_grid_cells, of n]
  have si: "setup_inv {p. in_grid n p} s4" by (simp add: s4_def set_grid_cells)
  then have dm: "dom (map_of (tiles s4)) = {p. in_grid n p}" by (simp add: setup_inv_def)
  have su': "shuffle_setup s n =
      (case dict_get (tiles s4) ?c of Inl e \<Rightarrow> Inl e
       | Inr _ \<Rightarrow> Inr (s4\<lparr>gamegrid := removeItem (gamegrid s4) (itemAtPosition (gamegrid s4) ?c),
                          current_empty_tile := Some ?c\<rparr>))"
    using lab img n0 g
    by (auto simp: shuffle_setup_def Let_def itemAtPosition_def removeItem_def
        foldl_make_tile_frame s4_def s3_def split: sum.splits)
  from n1 have "in_grid n ?c" by (simp add: in_grid_def)
  with dm obtain rc where "map_of (tiles s4) ?c = Some rc" by blast
  then show ?thesis unfolding su' by (simp add: dict_get_def)
qed

lemma shuffle_result_size:
  assumes "\<not> game_running s" and "shuffle s n rnd = Some (Inr s')"
  shows "grid_size s' = n \<and> game_running s'"
proof -
  from assms obtain s0 s1 where 0: "shuffle_setup s n = Inr s0"
    and 1: "shuffle_loop rnd 0 s0 = Some (Inr s1)"
    and 2: "s' = s1\<lparr>game_running := True, counter := 0\<rparr>"
    by (auto simp: shuffle_def split: sum.splits option.splits)
  from shuffle_loop_accepted[OF 1] have "grid_size s1 = grid_size s0" by blast
  moreover from shuffle_setup_frame[OF 0] have "grid_size s0 = n" by simp
  ultimately show ?thesis using 2 by simp
qed

lemma shuffle_never_fails:
  assumes idle: "idle_inv s" and nr: "\<not> game_running s" and img: "image s \<noteq> None"
    and n: "2 \<le> n" and sh: "shuffle s n rnd = Some y"
  shows "\<exists>s'. y = Inr s'"
proof -
  from n have "1 \<le> n" by simp
  from shuffle_setup_total[OF idle img this] obtain s0 where 0: "shuffle_setup s n = Inr s0"
    by blast
  from shuffle_setup_board[OF idle 0] have b0: "board_inv s0" by simp
  from shuffle_setup_frame[OF 0] n have n0: "2 \<le> grid_size s0" by simp
  from sh nr 0 obtain y0 where l: "shuffle_loop rnd 0 s0 = Some y0"
    by (auto simp: shuffle_def split: option.splits)
  from shuffle_loop_total[OF l b0 n0] obtain s1 where "y0 = Inr s1" by blast
  with sh nr 0 l show ?thesis by (auto simp: shuffle_def)
qed

lemma random_move_eq:
  assumes "current_empty_tile s = Some e" and "get_neightbor_tiles s e = nb" and "nb \<noteq> []"
    and "nb ! (r mod length nb) = p" and "map_of (tiles s) p = Some t"
  shows "random_move s r = move_tile s t ''normal''"
proof -
  from assms(3) have "r mod length nb < length nb" by simp
  with assms show ?thesis
    by (simp add: random_move_def Let_def randint_def dict_get_def)
qed

lemma shuffle_pass_add:
  "shuffle_pass (a + b) rnd i s =
     (case shuffle_pass a rnd i s of Inl e \<Rightarrow> Inl e | Inr s1 \<Rightarrow> shuffle_pass b rnd (i + a) s1)"
  by (induction a arbitrary: i s) (auto split: sum.splits)

lemma neighbors_corner:
  "grid_size s = n \<Longrightarrow> 2 \<le> n \<Longrightarrow>
   get_neightbor_tiles s (n - 1, n - 1) = [(n - 2, n - 1), (n - 1, n - 2)]"
  by simp

lemma neighbors_above_corner:
  "grid_size s = n \<Longrightarrow> 3 \<le> n \<Longrightarrow>
   get_neightbor_tiles s (n - 2, n - 1) = [(n - 3, n - 1), (n - 1, n - 1), (n - 2, n - 2)]"
  by simp

lemma neighbors_diagonal:
  "grid_size s = n \<Longrightarrow> 3 \<le> n \<Longrightarrow>
   get_neightbor_tiles s (n - 2, n - 2) =
     [(n - 3, n - 2), (n - 1, n - 2), (n - 2, n - 3), (n - 2, n - 1)]"
  by simp

lemma neighbors_left_of_corner:
  "grid_size s = n \<Longrightarrow> 3 \<le> n \<Longrightarrow>
   get_neightbor_tiles s (n - 1, n - 2) = [(n - 2, n - 2), (n - 1, n - 3), (n - 1, n - 1)]"
  by simp

lemma step_move:
  assumes b: "board_inv s" and e: "current_empty_tile s = Some e"
    and nb: "get_neightbor_tiles s e = nb" and ne: "nb \<noteq> []"
    and pk: "nb ! (r mod length nb) = p" and pe: "p \<noteq> e" and pg: "in_grid (grid_size s) p"
  shows "\<exists>s' t h. random_move s r = Inr s' \<and> map_of (tiles s) p = Some t \<and>
           map_of (tiles s) e = Some h \<and> board_inv s' \<and> current_empty_tile s' = Some p \<and>
           map_of (tiles s') = (map_of (tiles s))(p \<mapsto> h, e \<mapsto> t) \<and>
           grid_size s' = grid_size s"
proof -
  from board_inv_dom[OF b, of p] pg obtain t where mp: "map_of (tiles s) p = Some t" by auto
  from random_move_eq[OF e nb ne pk mp] have rm: "random_move s r = move_tile s t ''normal''" .
  from board_inv_move[OF b e mp pe, of "''normal''"] mp show ?thesis unfolding rm by blast
qed

lemma walk_rnd_start:
  "walk_rnd 0 = 0" "walk_rnd (Suc 0) = 2" "walk_rnd (Suc (Suc 0)) = 1"
  "walk_rnd (Suc (Suc (Suc 0))) = 2"
  by (simp_all add: walk_rnd_def numeral_2_eq_2 numeral_3_eq_3)

lemma walk_rnd_rest:
  "walk_rnd (4 + 2 * j) = 0" "walk_rnd (4 + 2 * j + 1) = 1"
  by (simp_all add: walk_rnd_def)

lemma board_inv_distinct: "board_inv s \<Longrightarrow> distinct (map fst (tiles s))"
  unfolding board_inv_def by blast

lemma four_cycle:
  assumes b0: "board_inv s0" and g0: "grid_size s0 = n" and n: "3 \<le> n"
    and e0: "current_empty_tile s0 = Some (n - 1, n - 1)"
    and home: "\<forall>p t. map_of (tiles s0) p = Some t \<longrightarrow> tile_id (heap s0 t) = p"
  shows "\<exists>s4. shuffle_pass (Suc (Suc (Suc (Suc 0)))) walk_rnd 0 s0 = Inr s4 \<and> board_inv s4 \<and>
           grid_size s4 = n \<and> current_empty_tile s4 = Some (n - 1, n - 1) \<and> \<not> check_win s4"
proof -
  let ?c = "(n - 1, n - 1)" and ?u = "(n - 2, n - 1)" and ?d = "(n - 2, n - 2)"
    and ?l = "(n - 1, n - 2)"
  from n have n2: "2 \<le> n" by simp
  have grid: "in_grid n ?c" "in_grid n ?u" "in_grid n ?d" "in_grid n ?l"
    using n by (simp_all add: in_grid_def)
  \<comment> \<open>first move: the tile above the corner slides down\<close>
  have "\<exists>s' t h. random_move s0 (walk_rnd 0) = Inr s' \<and> map_of (tiles s0) ?u = Some t \<and>
           map_of (tiles s0) ?c = Some h \<and> board_inv s' \<and> current_empty_tile s' = Some ?u \<and>
           map_of (tiles s') = (map_of (tiles s0))(?u \<mapsto> h, ?c \<mapsto> t) \<and>
           grid_size s' = grid_size s0"
    by (rule step_move[OF b0 e0 neighbors_corner[OF g0 n2]])
       (simp_all add: walk_rnd_start g0 grid)
  then obtain s1 tu h where 1: "random_move s0 (walk_rnd 0) = Inr s1"
    and tu: "map_of (tiles s0) ?u = Some tu" and b1: "board_inv s1"
    and e1: "current_empty_tile s1 = Some ?u"
    and m1: "map_of (tiles s1) = (map_of (tiles s0))(?u \<mapsto> h, ?c \<mapsto> tu)"
    and g1: "grid_size s1 = n" using g0 by auto
  \<comment> \<open>second move: the tile on the diagonal slides right\<close>
  have "\<exists>s' t h. random_move s1 (walk_rnd (Suc 0)) = Inr s' \<and> map_of (tiles s1) ?d = Some t \<and>
           map_of (tiles s1) ?u = Some h \<and> board_inv s' \<and> current_empty_tile s' = Some ?d \<and>
           map_of (tiles s') = (map_of (tiles s1))(?d \<mapsto> h, ?u \<mapsto> t) \<and>
           grid_size s' = grid_size s1"
    by (rule step_move[OF b1 e1 neighbors_above_corner[OF g1 n]])
       (simp_all add: walk_rnd_start g1 grid)
  then obtain s2 td h2 where 2: "random_move s1 (walk_rnd (Suc 0)) = Inr s2"
    and b2: "board_inv s2" and e2: "current_empty_tile s2 = Some ?d"
    and m2: "map_of (tiles s2) = (map_of (tiles s1))(?d \<mapsto> h2, ?u \<mapsto> td)"
    and g2: "grid_size s2 = n" using g1 by auto
  \<comment> \<open>third move: the tile left of the corner slides up\<close>
  have "\<exists>s' t h. random_move s2 (walk_rnd (Suc (Suc 0))) = Inr s' \<and>
           map_of (tiles s2) ?l = Some t \<and>
           map_of (tiles s2) ?d = Some h \<and> board_inv s' \<and> current_empty_tile s' = Some ?l \<and>
           map_of (tiles s') = (map_of (tiles s2))(?l \<mapsto> h, ?d \<mapsto> t) \<and>
           grid_size s' = grid_size s2"
    by (rule step_move[OF b2 e2 neighbors_diagonal[OF g2 n]])
       (simp_all add: walk_rnd_start g2 grid)
  then obtain s3 tl h3 where 3: "random_move s2 (walk_rnd (Suc (Suc 0))) = Inr s3"
    and b3: "board_inv s3" and e3: "current_empty_tile s3 = Some ?l"
    and m3: "map_of (tiles s3) = (map_of (tiles s2))(?l \<mapsto> h3, ?d \<mapsto> tl)"
    and g3: "grid_size s3 = n" using g2 by auto
  \<comment> \<open>fourth move: the tile in the corner slides left\<close>
  have "\<exists>s' t h. random_move s3 (walk_rnd (Suc (Suc (Suc 0)))) = Inr s' \<and>
           map_of (tiles s3) ?c = Some t \<and>
           map_of (tiles s3) ?l = Some h \<and> board_inv s' \<and> current_empty_tile s' = Some ?c \<and>
           map_of (tiles s') = (map_of (tiles s3))(?c \<mapsto> h, ?l \<mapsto> t) \<and>
           grid_size s' = grid_size s3"
    by (rule step_move[OF b3 e3 neighbors_left_of_corner[OF g3 n]])
       (simp_all add: walk_rnd_start g3 grid)
  then obtain s4 t4 h4 where 4: "random_move s3 (walk_rnd (Suc (Suc (Suc 0)))) = Inr s4"
    and t4: "map_of (tiles s3) ?c = Some t4"
    and b4: "board_inv s4" and e4: "current_empty_tile s4 = Some ?c"
    and m4: "map_of (tiles s4) = (map_of (tiles s3))(?c \<mapsto> h4, ?l \<mapsto> t4)"
    and g4: "grid_size s4 = n" using g3 by auto
  have "map_of (tiles s3) ?c = Some tu" by (simp add: m3 m2 m1)
  with t4 have "t4 = tu" by simp
  then have at_l: "map_of (tiles s4) ?l = Some tu" by (simp add: m4)
  have "tile_id (heap s4 tu) = tile_id (heap s0 tu)"
    using random_move_frame[OF 1] random_move_frame[OF 2] random_move_frame[OF 3]
      random_move_frame[OF 4] by simp
  also have "\<dots> = ?u" using home tu by blast
  finally have id: "tile_id (heap s4 tu) = ?u" .
  have loc: "location (heap s4 tu) = ?l" by (rule board_inv_loc[OF b4 at_l])
  have dk: "distinct (map fst (tiles s4))" using b4 by (rule board_inv_distinct)
  have "\<not> check_win s4"
  proof
    assume "check_win s4"
    with check_win_map_of[OF dk] at_l have "location (heap s4 tu) = tile_id (heap s4 tu)" by blast
    with id loc show False by simp
  qed
  moreover have "shuffle_pass (Suc (Suc (Suc (Suc 0)))) walk_rnd 0 s0 = Inr s4"
    using 1 2 3 4 by simp
  ultimately show ?thesis using b4 g4 e4 by blast
qed

lemma pair_moves:
  assumes b: "board_inv s" and n: "3 \<le> grid_size s"
    and e: "current_empty_tile s = Some (grid_size s - 1, grid_size s - 1)"
  shows "\<exists>s1 s2. random_move s 0 = Inr s1 \<and> random_move s1 1 = Inr s2 \<and>
           same_layout s2 s \<and> board_inv s2"
proof -
  define n' where "n' = grid_size s"
  let ?c = "(n' - 1, n' - 1)" and ?u = "(n' - 2, n' - 1)"
  have g: "grid_size s = n'" by (simp add: n'_def)
  from n have n3: "3 \<le> n'" and n2: "2 \<le> n'" by (simp_all add: n'_def)
  from e have e': "current_empty_tile s = Some ?c" by (simp add: n'_def)
  have ug: "in_grid (grid_size s) ?u" using n3 by (simp add: in_grid_def g)
  from board_inv_dom[OF b, of ?u] ug obtain t where mp: "map_of (tiles s) ?u = Some t" by auto
  have r1: "random_move s 0 = move_tile s t ''normal''"
    by (rule random_move_eq[OF e' neighbors_corner[OF g n2] _ _ mp]) simp_all
  have pe: "?u \<noteq> ?c" by simp
  from move_twice[OF b e' mp pe, of "''normal''" "''normal''"] obtain s1 s2 where
    *: "move_tile s t ''normal'' = Inr s1" "board_inv s1" "map_of (tiles s1) ?c = Some t"
       "current_empty_tile s1 = Some ?u" "grid_size s1 = grid_size s"
       "move_tile s1 t ''normal'' = Inr s2" "board_inv s2" "map_of (tiles s2) = map_of (tiles s)"
       "heap s2 = heap s" "current_empty_tile s2 = Some ?c" "grid_size s2 = grid_size s"
    by blast
  have g1: "grid_size s1 = n'" using *(5) g by simp
  have r2: "random_move s1 1 = move_tile s1 t ''normal''"
    by (rule random_move_eq[OF *(4) neighbors_above_corner[OF g1 n3] _ _ *(3)]) simp_all
  have "same_layout s2 s" using * e' by (simp add: same_layout_def)
  with r1 r2 * show ?thesis by simp
qed

lemma pairs_pass:
  assumes "\<forall>j. rnd (i + 2 * j) = 0 \<and> rnd (i + 2 * j + 1) = 1"
    and "board_inv s" and "3 \<le> grid_size s"
    and "current_empty_tile s = Some (grid_size s - 1, grid_size s - 1)"
  shows "\<exists>s'. shuffle_pass (2 * k) rnd i s = Inr s' \<and> same_layout s' s \<and> board_inv s'"
  using assms
proof (induction k arbitrary: i s)
  case 0
  then show ?case by (simp add: same_layout_refl)
next
  case (Suc k)
  from Suc.prems(1) have "rnd (i + 2 * 0) = 0 \<and> rnd (i + 2 * 0 + 1) = 1" by (rule spec)
  then have r0: "rnd i = 0" and r1: "rnd (Suc i) = 1" by simp_all
  from pair_moves[OF Suc.prems(2,3,4)] obtain s1 s2 where
    p: "random_move s 0 = Inr s1" "random_move s1 1 = Inr s2" "same_layout s2 s" "board_inv s2"
    by blast
  from p(3) Suc.prems(3,4) have g2: "3 \<le> grid_size s2"
    and e2: "current_empty_tile s2 = Some (grid_size s2 - 1, grid_size s2 - 1)"
    by (simp_all add: same_layout_def)
  have rn: "\<forall>j. rnd (Suc (Suc i) + 2 * j) = 0 \<and> rnd (Suc (Suc i) + 2 * j + 1) = 1"
  proof
    fix j
    from Suc.prems(1) have "rnd (i + 2 * Suc j) = 0 \<and> rnd (i + 2 * Suc j + 1) = 1" by blast
    then show "rnd (Suc (Suc i) + 2 * j) = 0 \<and> rnd (Suc (Suc i) + 2 * j + 1) = 1" by simp
  qed
  from Suc.IH[OF rn p(4) g2 e2] obtain s' where
    s': "shuffle_pass (2 * k) rnd (Suc (Suc i)) s2 = Inr s'" "same_layout s' s2" "board_inv s'"
    by blast
  have "shuffle_pass (2 * Suc k) rnd i s = Inr s'"
    using p(1,2) r0 r1 s'(1) by simp
  moreover from s'(2) p(3) have "same_layout s' s" by (rule same_layout_trans)
  ultimately show ?case using s'(3) by blast
qed

lemma shuffle_returns_even:
  assumes idle: "idle_inv s" and nr: "\<not> game_running s" and img: "image s \<noteq> None"
    and ev: "even n" and n4: "4 \<le> n"
  shows "\<exists>s'. shuffle s n walk_rnd = Some (Inr s')"
proof -
  from n4 have n1: "1 \<le> n" and n3: "3 \<le> n" by simp_all
  from shuffle_setup_total[OF idle img n1] obtain s0 where 0: "shuffle_setup s n = Inr s0"
    by blast
  from shuffle_setup_board[OF idle 0] have b0: "board_inv s0"
    and home: "\<forall>p t. map_of (tiles s0) p = Some t \<longrightarrow> tile_id (heap s0 t) = p" by auto
  from shuffle_setup_frame[OF 0] have g0: "grid_size s0 = n"
    and e0: "current_empty_tile s0 = Some (n - 1, n - 1)" by simp_all
  from four_cycle[OF b0 g0 n3 e0 home] obtain s4 where
    c4: "shuffle_pass (Suc (Suc (Suc (Suc 0)))) walk_rnd 0 s0 = Inr s4" and b4: "board_inv s4"
    and g4: "grid_size s4 = n" and e4: "current_empty_tile s4 = Some (n - 1, n - 1)"
    and w4: "\<not> check_win s4" by blast
  define k where "k = (nat (n\<^sup>2) - 4) div 2"
  from n4 have "4 * 4 \<le> n * n" by (intro mult_mono) simp_all
  then have big: "4 \<le> nat (n\<^sup>2)" by (simp add: power2_eq_square)
  from ev n4 have "even (nat (n\<^sup>2))" by (simp add: even_nat_iff)
  moreover have "m = 4 + 2 * ((m - 4) div 2)" if "4 \<le> m" "even m" for m :: nat
    using that by presburger
  ultimately have nk: "nat (n\<^sup>2) = 4 + 2 * k" unfolding k_def using big by blast
  have rn: "\<forall>j. walk_rnd (4 + 2 * j) = 0 \<and> walk_rnd (4 + 2 * j + 1) = 1"
    using walk_rnd_rest by blast
  from n3 g4 have g4': "3 \<le> grid_size s4" by simp
  from e4 g4 have e4': "current_empty_tile s4 = Some (grid_size s4 - 1, grid_size s4 - 1)"
    by simp
  from pairs_pass[OF rn b4 g4' e4', of k] obtain s5 where
    p5: "shuffle_pass (2 * k) walk_rnd 4 s4 = Inr s5" and l5: "same_layout s5 s4"
    and b5: "board_inv s5" by blast
  have four: "(4::nat) = Suc (Suc (Suc (Suc 0)))" by simp
  have pass: "shuffle_pass (4 + 2 * k) walk_rnd 0 s0 = Inr s5"
    unfolding shuffle_pass_add using c4 p5 by (simp add: four)
  from l5 g4 e4 have g5: "grid_size s5 = n"
    and e5: "current_empty_tile s5 = Some (n - 1, n - 1)" by (simp_all add: same_layout_def)
  from check_win_layout[OF b5 b4 l5] w4 have w5: "\<not> check_win s5" by simp
  have acc: "accepted s5" using g5 e5 w5 by (simp add: accepted_def)
  have loop: "shuffle_loop walk_rnd 0 s0 = Some (Inr s5)"
    by (subst shuffle_loop.simps) (simp add: g0 nk pass acc)
  show ?thesis using nr 0 loop by (simp add: shuffle_def)
qed

lemma reachable_idle:
  "reachable s \<Longrightarrow> \<not> game_running s \<Longrightarrow> idle_inv s"
  by (drule reachable_inv) (simp add: gameboard_inv_def)

lemma shuffle_12_returns: "\<exists>s'. shuffle loaded 12 walk_rnd = Some (Inr s')"
  by (rule shuffle_returns_even[OF reachable_idle[OF reachable_loaded]])
     (simp_all add: loaded_def)

section \<open>The properties\<close>

subsection \<open>C1\<close>

text \<open>
  C1. When \<^verbatim>\<open>shuffle(grid_size)\<close> is called while no game is running and returns, the
  empty cell is at \<open>(grid_size - 1, grid_size - 1)\<close>, \<^verbatim>\<open>check_win\<close> is false, the counter
  is zero and the game is running.
\<close>

theorem shuffle_postcondition:
  assumes "\<not> game_running s" and "shuffle s n rnd = Some (Inr s')"
  shows "current_empty_tile s' = Some (n - 1, n - 1) \<and> \<not> check_win s' \<and>
         counter s' = 0 \<and> game_running s'"
proof -
  from assms obtain s0 s1 where 0: "shuffle_setup s n = Inr s0"
    and 1: "shuffle_loop rnd 0 s0 = Some (Inr s1)"
    and 2: "s' = s1\<lparr>game_running := True, counter := 0\<rparr>"
    by (auto simp: shuffle_def split: sum.splits option.splits)
  from shuffle_loop_accepted[OF 1] have "accepted s1" "grid_size s1 = grid_size s0" by blast+
  moreover from shuffle_setup_frame[OF 0] have "grid_size s0 = n" by simp
  ultimately show ?thesis using 2 by (simp add: accepted_def)
qed

theorem shuffle_postcondition_witness:
  "\<not> game_running loaded \<and> shuffle loaded 2 (\<lambda>i. i) = Some (Inr game2) \<and>
   current_empty_tile game2 = Some (2 - 1, 2 - 1) \<and> \<not> check_win game2 \<and>
   counter game2 = 0 \<and> game_running game2"
proof -
  have h: "\<not> game_running loaded" by (simp add: loaded_def)
  from shuffle_postcondition[OF h shuffle_2] h shuffle_2 show ?thesis by simp
qed

subsection \<open>C2\<close>

text \<open>
  C2. When \<^verbatim>\<open>shuffle\<close> is called on a reachable board while no game is running and returns,
  the board it returns is reached from the solved arrangement (every tile at its home position,
  the empty cell in the corner) by a finite sequence of legal moves, each of which slides a
  tile orthogonally adjacent to the empty cell; hence it is solvable: some sequence of legal
  moves leads from it to a board on which \<^verbatim>\<open>check_win\<close> holds.
\<close>

theorem shuffle_solvable:
  assumes "reachable s" and "\<not> game_running s" and "shuffle s n rnd = Some (Inr s')"
  shows "\<exists>s0 s1 s2. shuffle_setup s n = Inr s0 \<and> check_win s0 \<and>
           current_empty_tile s0 = Some (n - 1, n - 1) \<and>
           (\<forall>p t. map_of (tiles s0) p = Some t \<longrightarrow>
               location (heap s0 t) = p \<and> tile_id (heap s0 t) = p) \<and>
           legal_move\<^sup>*\<^sup>* s0 s1 \<and> s' = s1\<lparr>game_running := True, counter := 0\<rparr> \<and>
           legal_move\<^sup>*\<^sup>* s' s2 \<and> check_win s2"
proof -
  from reachable_inv[OF assms(1)] assms(2) have idle: "idle_inv s"
    by (simp add: gameboard_inv_def)
  from shuffle_board[OF idle assms(2,3)] obtain s0 s1 where
    0: "shuffle_setup s n = Inr s0" and b0: "board_inv s0" and w0: "check_win s0"
    and t0: "\<forall>p t. map_of (tiles s0) p = Some t \<longrightarrow>
               location (heap s0 t) = p \<and> tile_id (heap s0 t) = p"
    and p01: "legal_move\<^sup>*\<^sup>* s0 s1" and b1: "board_inv s1"
    and s': "s' = s1\<lparr>game_running := True, counter := 0\<rparr>"
    by blast
  from shuffle_setup_frame[OF 0] have e0: "current_empty_tile s0 = Some (n - 1, n - 1)" by simp
  from path_back[OF p01 b0] obtain t2 where
    t2: "legal_move\<^sup>*\<^sup>* s1 t2" "same_layout t2 s0" "board_inv t2" by blast
  have b': "board_inv s'" using b1 by (simp add: s')
  have l': "same_layout s1 s'" by (simp add: s' same_layout_def)
  from path_layout[OF t2(1) b1 b' l'] obtain s2 where
    s2: "legal_move\<^sup>*\<^sup>* s' s2" "same_layout t2 s2" "board_inv s2" by blast
  from same_layout_sym[OF s2(2)] t2(2) have "same_layout s2 s0" by (rule same_layout_trans)
  from check_win_layout[OF s2(3) b0 this] w0 have "check_win s2" by simp
  with 0 w0 e0 t0 p01 s' s2(1) show ?thesis by blast
qed

theorem shuffle_solvable_witness:
  "reachable loaded \<and> \<not> game_running loaded \<and> shuffle loaded 2 (\<lambda>i. i) = Some (Inr game2) \<and>
   shuffle_setup loaded 2 = Inr setup2 \<and> check_win setup2 \<and>
   current_empty_tile setup2 = Some (2 - 1, 2 - 1) \<and>
   (\<exists>s1 s2. legal_move\<^sup>*\<^sup>* setup2 s1 \<and> game2 = s1\<lparr>game_running := True, counter := 0\<rparr> \<and>
            legal_move\<^sup>*\<^sup>* game2 s2 \<and> check_win s2)"
proof -
  have h: "\<not> game_running loaded" by (simp add: loaded_def)
  from shuffle_solvable[OF reachable_loaded h shuffle_2] shuffle_setup_2
    reachable_loaded h shuffle_2
  show ?thesis by auto
qed

subsection \<open>C3\<close>



subsection \<open>C4\<close>



subsection \<open>C5\<close>

text \<open>
  C5. On every reachable board and for every cell \<open>p\<close> of the grid, \<^verbatim>\<open>moveable_tile(p)\<close> holds
  iff \<open>p\<close> is in \<^verbatim>\<open>get_moveable_tiles()\<close>, iff \<open>p\<close> is orthogonally adjacent to the empty cell.
  Both queries return a value only: they have no board to change.
\<close>

theorem legal_move_symmetry:
  assumes "reachable s" and "in_grid (grid_size s) p"
  shows "(moveable_tile s p \<longleftrightarrow> p \<in> set (get_moveable_tiles s)) \<and>
         (moveable_tile s p \<longleftrightarrow> (\<exists>e. current_empty_tile s = Some e \<and> adjacent p e))"
proof -
  have 1: "moveable_tile s p \<longleftrightarrow> p \<in> set (get_moveable_tiles s)"
    using assms(2) by (simp add: set_get_moveable_tiles)
  have 2: "moveable_tile s p \<longleftrightarrow> (\<exists>e. current_empty_tile s = Some e \<and> adjacent p e)"
  proof (cases "current_empty_tile s")
    case None
    then show ?thesis by (simp add: moveable_tile_def)
  next
    case (Some e)
    from reachable_empty_in_grid[OF assms(1) Some] have "in_grid (grid_size s) e" .
    from moveable_tile_iff[OF Some this assms(2)] Some show ?thesis by simp
  qed
  from 1 2 show ?thesis by simp
qed

theorem legal_move_symmetry_witness:
  "reachable game2 \<and> in_grid (grid_size game2) (1, 0) \<and> moveable_tile game2 (1, 0) \<and>
   (1, 0) \<in> set (get_moveable_tiles game2) \<and> current_empty_tile game2 = Some (1, 1) \<and>
   adjacent (1, 0) (1, 1)"
proof -
  have g: "in_grid (grid_size game2) (1, 0)" by (simp add: game2_def in_grid_def)
  have m: "moveable_tile game2 (1, 0)" by (simp add: game2_def moveable_tile_def)
  have e: "current_empty_tile game2 = Some (1, 1)" by (simp add: game2_def)
  from legal_move_symmetry[OF reachable_game2 g] m e reachable_game2 g
  show ?thesis by simp
qed

subsection \<open>C6\<close>




subsection \<open>C7\<close>

text \<open>
  C7 says that the counter keeps its final value after the winning click returns. On
  \<open>almost_won\<close> the click on tile 2 is the fourth move and solves the puzzle; the counter is 4
  after \<^verbatim>\<open>move_tile\<close> and 0 when \<^verbatim>\<open>tile_clicked\<close> returns.
\<close>

theorem winning_click_counter_counterexample:
  "reachable almost_won \<and> game_running almost_won \<and>
   (TileW 2, (1, 1)) \<in> set (gamegrid almost_won) \<and> moveable_tile almost_won (1, 1) \<and>
   move_tile almost_won 2 ''fade'' = Inr solved2 \<and> check_win solved2 \<and> counter solved2 = 4 \<and>
   tile_clicked almost_won 2 = Inr won2 \<and> counter won2 = 0"
  using reachable_almost_won move_almost_won check_win_solved2 click_almost_won
  by (simp add: almost_won_def won2_def solved2_def moveable_tile_def)

text \<open>
  C7, amended. When a legal click on a board reached while a game is running leads to the solved
  layout, \<^verbatim>\<open>tile_clicked\<close> emits \<^verbatim>\<open>won_signal\<close> while the counter holds its final value (the
  slot reads the counter of the board plus one), then clears the tiles, sets the game to not
  running and resets the counter to 0.
\<close>

theorem winning_click_effect:
  assumes "reachable s" and "game_running s" and "(TileW t, p) \<in> set (gamegrid s)"
    and "moveable_tile s p" and "move_tile s t ''fade'' = Inr s1" and "check_win s1"
  shows "\<exists>s'. tile_clicked s t = Inr s' \<and> \<not> game_running s' \<and> counter s' = 0 \<and>
           tiles s' = [] \<and> won_signal s' = (counter s + 1) # won_signal s"
proof -
  from assms(1,2) have b: "board_inv s" by (rule reachable_board)
  from b obtain e where e: "current_empty_tile s = Some e" by (rule board_inv_empty)
  from board_inv_visible[OF b e assms(3)] have mp: "map_of (tiles s) p = Some t"
    and pe: "p \<noteq> e" and lt: "location (heap s t) = p" by simp_all
  from board_inv_move[OF b e mp pe, of "''fade''"] assms(5)
  have b1: "board_inv s1" and c1: "counter s1 = counter s + 1"
    and w1: "won_signal s1 = won_signal s" by auto
  from b1 have n: "1 \<le> grid_size s1" and img: "image s1 \<noteq> None" by (auto simp: board_inv_def)
  from set_won_state_idle[where emit = True, OF board_inv_gamegrid[OF b1] n img]
  obtain s' where s': "set_won_state s1 True = Inr s'" "\<not> game_running s'" "counter s' = 0"
    "tiles s' = []" "won_signal s' = counter s1 # won_signal s1" by auto
  have "tile_clicked s t = Inr s'"
    using assms(2,4,5,6) lt s'(1) by (simp add: tile_clicked_def)
  with s' c1 w1 show ?thesis by simp
qed

theorem winning_click_effect_witness:
  "reachable almost_won \<and> game_running almost_won \<and>
   (TileW 2, (1, 1)) \<in> set (gamegrid almost_won) \<and> moveable_tile almost_won (1, 1) \<and>
   move_tile almost_won 2 ''fade'' = Inr solved2 \<and> check_win solved2 \<and>
   (\<exists>s'. tile_clicked almost_won 2 = Inr s' \<and> \<not> game_running s' \<and> counter s' = 0 \<and>
         tiles s' = [] \<and> won_signal s' = (counter almost_won + 1) # won_signal almost_won)"
proof -
  have r: "game_running almost_won" by (simp add: almost_won_def)
  have v: "(TileW 2, (1, 1)) \<in> set (gamegrid almost_won)" by (simp add: almost_won_def)
  have m: "moveable_tile almost_won (1, 1)" by (simp add: almost_won_def moveable_tile_def)
  from winning_click_effect[OF reachable_almost_won r v m move_almost_won check_win_solved2]
    reachable_almost_won r v m move_almost_won check_win_solved2
  show ?thesis by blast
qed

subsection \<open>C8\<close>




subsection \<open>C9\<close>

text \<open>
  C9 says that a grid size outside 2..10 is rejected with a failure. \<^verbatim>\<open>shuffle(12)\<close> on the
  board after \<^verbatim>\<open>load_image\<close>, with the draws \<open>walk_rnd\<close>, returns normally: the game is running
  on a grid of size 12.
\<close>

theorem grid_size_12_accepted_counterexample:
  "reachable loaded \<and> \<not> game_running loaded \<and>
   (case shuffle loaded 12 walk_rnd of
      Some (Inr s') \<Rightarrow> grid_size s' = 12 \<and> game_running s'
    | _ \<Rightarrow> False)"
proof -
  have nr: "\<not> game_running loaded" by (simp add: loaded_def)
  from shuffle_12_returns obtain s' where s': "shuffle loaded 12 walk_rnd = Some (Inr s')"
    by blast
  from shuffle_result_size[OF nr s'] s' nr reachable_loaded show ?thesis by simp
qed

text \<open>
  C9, amended. \<^verbatim>\<open>shuffle\<close> does not check the range of the grid size. Called on a reachable
  board with an image loaded while no game is running, with any size from 2 upwards (also
  above 10), it never raises, and whenever it returns the game is running on a grid of exactly
  the size given: the size is never clamped.
\<close>

theorem shuffle_no_range_check:
  assumes "reachable s" and "\<not> game_running s" and "image s \<noteq> None" and "2 \<le> n"
    and "shuffle s n rnd = Some y"
  shows "\<exists>s'. y = Inr s' \<and> grid_size s' = n \<and> game_running s'"
proof -
  from assms(1,2) have idle: "idle_inv s" by (rule reachable_idle)
  from shuffle_never_fails[OF idle assms(2,3,4,5)] obtain s' where y: "y = Inr s'" by blast
  with assms(5) have "shuffle s n rnd = Some (Inr s')" by simp
  from shuffle_result_size[OF assms(2) this] y show ?thesis by simp
qed

theorem shuffle_no_range_check_witness:
  "reachable loaded \<and> \<not> game_running loaded \<and> image loaded \<noteq> None \<and> (2::int) \<le> 12 \<and>
   (\<exists>s'. shuffle loaded 12 walk_rnd = Some (Inr s') \<and> grid_size s' = 12 \<and> game_running s')"
proof -
  have nr: "\<not> game_running loaded" by (simp add: loaded_def)
  have img: "image loaded \<noteq> None" by (simp add: loaded_def)
  from shuffle_12_returns obtain s0 where s0: "shuffle loaded 12 walk_rnd = Some (Inr s0)"
    by blast
  from shuffle_no_range_check[OF reachable_loaded nr img _ s0, of ] s0
  have "grid_size s0 = 12 \<and> game_running s0" by simp
  with s0 reachable_loaded nr img show ?thesis by simp
qed

subsection \<open>C10\<close>



end
